theory Spec2Isabelle
  imports Main "HOL-Library.FSet"
begin

section \<open>Instructions and segments\<close>

text \<open>
  The opcodes that the control-flow analysis and the quest runner distinguish. The
  module that declares the opcode table is missing; every opcode that the code does not
  name is \<open>Op_other\<close>, with its numeric code.
\<close>

datatype Opcode =
    Op_ret
  | Op_jmp
  | Op_jmp_on | Op_jmp_off
  | Op_jmp_e | Op_jmpi_e | Op_jmp_ne | Op_jmpi_ne
  | Op_ujmp_g | Op_ujmpi_g | Op_jmp_g | Op_jmpi_g
  | Op_ujmp_l | Op_ujmpi_l | Op_jmp_l | Op_jmpi_l
  | Op_ujmp_ge | Op_ujmpi_ge | Op_jmp_ge | Op_jmpi_ge
  | Op_ujmp_le | Op_ujmpi_le | Op_jmp_le | Op_jmpi_le
  | Op_switch_jmp
  | Op_call | Op_va_call | Op_switch_call
  | Op_let | Op_leti | Op_letb | Op_letw | Op_leto
  | Op_other nat

record Arg =
  arg_value :: int

record AsmToken =
  line_no :: nat
  col :: nat
  len :: nat

record InstructionAsm =
  mnemonic :: "AsmToken option"

text \<open>
  An \<open>Instruction\<close> is a JavaScript object: the map of the control-flow graph is keyed
  by object identity and \<open>register_value_set\<close> compares with \<open>===\<close>. The field
  \<open>iref\<close> is that identity.
\<close>

record Instruction =
  iref :: nat
  opcode :: Opcode
  args :: "Arg list"
  asm :: "InstructionAsm option"

record InstructionSegment =
  labels :: "int list"
  instructions :: "Instruction list"

text \<open>Reading \<open>args[k].value\<close> throws a \<open>TypeError\<close> when \<open>args[k]\<close> is undefined.\<close>

datatype error = TypeError | AssertionError

definition arg_at :: "Arg list \<Rightarrow> nat \<Rightarrow> error + int" where
  "arg_at as k = (if k < length as then Inr (arg_value (as ! k)) else Inl TypeError)"

section \<open>Basic blocks and the control-flow graph\<close>

datatype BranchType = None_branch | Return | Jump | ConditionalJump | Call

text \<open>
  Blocks refer to each other through their \<open>from\<close> and \<open>to\<close> arrays, and the graph may
  be cyclic. Every block is pushed onto \<open>cfg.blocks\<close> when it is created, so a reference
  to a block is its index in that array.
\<close>

record BasicBlock =
  segment :: InstructionSegment
  start :: nat
  end_idx :: nat
  branch_type :: BranchType
  branch_labels :: "int list"
  from_blocks :: "nat list"
  to_blocks :: "nat list"

record ControlFlowGraph =
  blocks :: "BasicBlock list"
  cfg_instructions :: "nat \<rightharpoonup> nat"

definition link_to :: "nat \<Rightarrow> nat \<Rightarrow> BasicBlock list \<Rightarrow> BasicBlock list" where
  "link_to this other bs =
     (let bs1 = bs[this := (bs ! this)\<lparr>to_blocks := to_blocks (bs ! this) @ [other]\<rparr>]
      in bs1[other := (bs1 ! other)\<lparr>from_blocks := from_blocks (bs1 ! other) @ [this]\<rparr>])"

subsection \<open>Block splitting\<close>

definition one_label :: "BranchType \<Rightarrow> Arg list \<Rightarrow> nat \<Rightarrow> error + (BranchType \<times> int list) option" where
  "one_label bt as k =
     (case arg_at as k of Inl e \<Rightarrow> Inl e | Inr v \<Rightarrow> Inr (Some (bt, [v])))"

definition tail_labels :: "BranchType \<Rightarrow> Arg list \<Rightarrow> error + (BranchType \<times> int list) option" where
  "tail_labels bt as = Inr (Some (bt, map arg_value (drop 1 as)))"

text \<open>
  The \<open>switch\<close> of \<open>create_basic_blocks\<close>: the branch type and the branch labels of an
  instruction, \<open>None\<close> where the loop continues without closing a block.
\<close>

definition branch_of :: "Instruction \<Rightarrow> bool \<Rightarrow> error + (BranchType \<times> int list) option" where
  "branch_of inst is_last =
     (case opcode inst of
        Op_ret \<Rightarrow> Inr (Some (Return, []))
      | Op_jmp \<Rightarrow> one_label Jump (args inst) 0
      | Op_jmp_on \<Rightarrow> one_label ConditionalJump (args inst) 0
      | Op_jmp_off \<Rightarrow> one_label ConditionalJump (args inst) 0
      | Op_jmp_e \<Rightarrow> one_label ConditionalJump (args inst) 2
      | Op_jmpi_e \<Rightarrow> one_label ConditionalJump (args inst) 2
      | Op_jmp_ne \<Rightarrow> one_label ConditionalJump (args inst) 2
      | Op_jmpi_ne \<Rightarrow> one_label ConditionalJump (args inst) 2
      | Op_ujmp_g \<Rightarrow> one_label ConditionalJump (args inst) 2
      | Op_ujmpi_g \<Rightarrow> one_label ConditionalJump (args inst) 2
      | Op_jmp_g \<Rightarrow> one_label ConditionalJump (args inst) 2
      | Op_jmpi_g \<Rightarrow> one_label ConditionalJump (args inst) 2
      | Op_ujmp_l \<Rightarrow> one_label ConditionalJump (args inst) 2
      | Op_ujmpi_l \<Rightarrow> one_label ConditionalJump (args inst) 2
      | Op_jmp_l \<Rightarrow> one_label ConditionalJump (args inst) 2
      | Op_jmpi_l \<Rightarrow> one_label ConditionalJump (args inst) 2
      | Op_ujmp_ge \<Rightarrow> one_label ConditionalJump (args inst) 2
      | Op_ujmpi_ge \<Rightarrow> one_label ConditionalJump (args inst) 2
      | Op_jmp_ge \<Rightarrow> one_label ConditionalJump (args inst) 2
      | Op_jmpi_ge \<Rightarrow> one_label ConditionalJump (args inst) 2
      | Op_ujmp_le \<Rightarrow> one_label ConditionalJump (args inst) 2
      | Op_ujmpi_le \<Rightarrow> one_label ConditionalJump (args inst) 2
      | Op_jmp_le \<Rightarrow> one_label ConditionalJump (args inst) 2
      | Op_jmpi_le \<Rightarrow> one_label ConditionalJump (args inst) 2
      | Op_switch_jmp \<Rightarrow> tail_labels ConditionalJump (args inst)
      | Op_call \<Rightarrow> one_label Call (args inst) 0
      | Op_va_call \<Rightarrow> one_label Call (args inst) 0
      | Op_switch_call \<Rightarrow> tail_labels Call (args inst)
      | _ \<Rightarrow> (if is_last then Inr (Some (None_branch, [])) else Inr None))"

text \<open>
  The state of the loop of \<open>create_basic_blocks\<close>: the local variables \<open>start\<close> and
  \<open>first_block\<close>, the graph and the label map, both of which the loop mutates.
\<close>

record bb_state =
  bb_start :: nat
  bb_first :: bool
  bb_cfg :: ControlFlowGraph
  bb_labels :: "int \<rightharpoonup> nat"

definition set_instructions ::
  "Instruction list \<Rightarrow> nat \<Rightarrow> nat \<Rightarrow> nat \<Rightarrow> (nat \<rightharpoonup> nat) \<Rightarrow> (nat \<rightharpoonup> nat)" where
  "set_instructions insts lo hi b m = fold (\<lambda>j m. m(iref (insts ! j) \<mapsto> b)) [lo..<hi] m"

definition set_labels :: "int list \<Rightarrow> nat \<Rightarrow> (int \<rightharpoonup> nat) \<Rightarrow> (int \<rightharpoonup> nat)" where
  "set_labels ls b m = fold (\<lambda>l m. m(l \<mapsto> b)) ls m"

definition bb_step :: "InstructionSegment \<Rightarrow> nat \<Rightarrow> bb_state \<Rightarrow> error + bb_state" where
  "bb_step seg i st =
     (case branch_of (instructions seg ! i) (i = length (instructions seg) - 1) of
        Inl e \<Rightarrow> Inl e
      | Inr None \<Rightarrow> Inr st
      | Inr (Some (bt, bl)) \<Rightarrow>
          (let block = \<lparr>segment = seg, start = bb_start st, end_idx = i + 1,
                        branch_type = bt, branch_labels = bl,
                        from_blocks = [], to_blocks = []\<rparr>;
               b = length (blocks (bb_cfg st));
               cfg' = \<lparr>blocks = blocks (bb_cfg st) @ [block],
                       cfg_instructions =
                         set_instructions (instructions seg) (bb_start st) (i + 1) b
                           (cfg_instructions (bb_cfg st))\<rparr>
           in Inr \<lparr>bb_start = i + 1, bb_first = False, bb_cfg = cfg',
                   bb_labels = (if bb_first st then set_labels (labels seg) b (bb_labels st)
                                else bb_labels st)\<rparr>))"

text \<open>A \<open>for\<close> loop whose body may throw: the first error ends the loop.\<close>

fun fold_err :: "('a \<Rightarrow> 's \<Rightarrow> error + 's) \<Rightarrow> 'a list \<Rightarrow> 's \<Rightarrow> error + 's" where
  "fold_err f [] s = Inr s"
| "fold_err f (x # xs) s = (case f x s of Inl e \<Rightarrow> Inl e | Inr s' \<Rightarrow> fold_err f xs s')"

definition create_basic_blocks ::
  "InstructionSegment \<Rightarrow> ControlFlowGraph \<times> (int \<rightharpoonup> nat) \<Rightarrow>
   error + ControlFlowGraph \<times> (int \<rightharpoonup> nat)" where
  "create_basic_blocks seg cl =
     (case fold_err (bb_step seg) [0..<length (instructions seg)]
             \<lparr>bb_start = 0, bb_first = True, bb_cfg = fst cl, bb_labels = snd cl\<rparr> of
        Inl e \<Rightarrow> Inl e
      | Inr st \<Rightarrow> Inr (bb_cfg st, bb_labels st))"

definition empty_cfg :: ControlFlowGraph where
  "empty_cfg = \<lparr>blocks = [], cfg_instructions = Map.empty\<rparr>"

text \<open>The first loop of \<open>create_control_flow_graph\<close>.\<close>

definition create_all_blocks ::
  "InstructionSegment list \<Rightarrow> error + ControlFlowGraph \<times> (int \<rightharpoonup> nat)" where
  "create_all_blocks segments = fold_err create_basic_blocks segments (empty_cfg, Map.empty)"

subsection \<open>Edge linking\<close>

text \<open>The loop over \<open>block.branch_labels\<close> at the end of the body of \<open>link_blocks\<close>.\<close>

definition link_labels :: "(int \<rightharpoonup> nat) \<Rightarrow> nat \<Rightarrow> int list \<Rightarrow> BasicBlock list \<Rightarrow> BasicBlock list" where
  "link_labels label_blocks i ls bs =
     fold (\<lambda>label bs. case label_blocks label of None \<Rightarrow> bs
                                               | Some to_block \<Rightarrow> link_to i to_block bs) ls bs"

text \<open>
  One iteration of the first loop of \<open>link_blocks\<close>, on the blocks and the array
  \<open>callers\<close>. \<open>cfg.blocks[i + 1]\<close> is undefined exactly when \<open>i + 1\<close> is the length.
\<close>

definition link_step ::
  "(int \<rightharpoonup> nat) \<Rightarrow> nat \<Rightarrow> BasicBlock list \<times> (nat \<times> nat) list \<Rightarrow>
   BasicBlock list \<times> (nat \<times> nat) list" where
  "link_step label_blocks i st =
     (let bs = fst st; callers = snd st; block = bs ! i; has_next = (i + 1 < length bs) in
      case branch_type block of
        Return \<Rightarrow> (bs, callers)
      | Call \<Rightarrow>
          (link_labels label_blocks i (branch_labels block) bs,
           if has_next then callers @ [(i, i + 1)] else callers)
      | None_branch \<Rightarrow>
          (link_labels label_blocks i (branch_labels block)
             (if has_next then link_to i (i + 1) bs else bs), callers)
      | ConditionalJump \<Rightarrow>
          (link_labels label_blocks i (branch_labels block)
             (if has_next then link_to i (i + 1) bs else bs), callers)
      | Jump \<Rightarrow> (link_labels label_blocks i (branch_labels block) bs, callers))"

definition link_edges ::
  "(int \<rightharpoonup> nat) \<Rightarrow> BasicBlock list \<Rightarrow> BasicBlock list \<times> (nat \<times> nat) list" where
  "link_edges label_blocks bs = fold (link_step label_blocks) [0..<length bs] (bs, [])"

text \<open>
  \<open>link_returning_blocks\<close> calls itself with no bound on the depth. The first argument
  bounds the depth of the calls; \<open>None\<close> is a walk that was cut off at that depth.
\<close>

fun fold_opt :: "('a \<Rightarrow> 's \<Rightarrow> 's option) \<Rightarrow> 'a list \<Rightarrow> 's \<Rightarrow> 's option" where
  "fold_opt f [] s = Some s"
| "fold_opt f (x # xs) s = (case f x s of None \<Rightarrow> None | Some s' \<Rightarrow> fold_opt f xs s')"

fun link_returning_blocks ::
  "nat \<Rightarrow> (int \<rightharpoonup> nat) \<Rightarrow> nat \<Rightarrow> nat \<Rightarrow> BasicBlock list \<Rightarrow> BasicBlock list option" where
  "link_returning_blocks 0 label_blocks ret block bs = None"
| "link_returning_blocks (Suc n) label_blocks ret block bs =
     fold_opt
       (\<lambda>label bs.
          case label_blocks label of
            None \<Rightarrow> Some bs
          | Some sub_block \<Rightarrow>
              link_returning_blocks n label_blocks ret sub_block
                (if branch_type (bs ! sub_block) = Return then link_to sub_block ret bs else bs))
       (branch_labels (bs ! block)) bs"

definition link_blocks ::
  "nat \<Rightarrow> (int \<rightharpoonup> nat) \<Rightarrow> ControlFlowGraph \<Rightarrow> ControlFlowGraph option" where
  "link_blocks n label_blocks cfg =
     (let (bs, callers) = link_edges label_blocks (blocks cfg) in
      case fold_opt (\<lambda>(caller, ret) bs. link_returning_blocks n label_blocks ret caller bs)
             callers bs of
        None \<Rightarrow> None
      | Some bs' \<Rightarrow> Some (cfg\<lparr>blocks := bs'\<rparr>))"

text \<open>
  \<open>create_control_flow_graph\<close>: \<open>None\<close> when the return linking does not come back
  within depth \<open>n\<close>, \<open>Some (Inl e)\<close> when block splitting throws \<open>e\<close>, and
  \<open>Some (Inr cfg)\<close> when the graph \<open>cfg\<close> is returned.
\<close>

definition create_control_flow_graph ::
  "nat \<Rightarrow> InstructionSegment list \<Rightarrow> (error + ControlFlowGraph) option" where
  "create_control_flow_graph n segments =
     (case create_all_blocks segments of
        Inl e \<Rightarrow> Some (Inl e)
      | Inr (cfg, label_blocks) \<Rightarrow>
          (case link_blocks n label_blocks cfg of
             None \<Rightarrow> None
           | Some cfg' \<Rightarrow> Some (Inr cfg')))"

section \<open>Value-set analysis\<close>

text \<open>
  Modelled from the spec: the class \<open>ValueSet\<close> (module \<open>./ValueSet\<close>), which is missing.
  The spec describes it as an abstract set of integers with singleton assignment, union
  with another set and a size query.
\<close>

type_synonym ValueSet = "int fset"

definition new_ValueSet :: ValueSet where
  "new_ValueSet = {||}"

definition set_value :: "int \<Rightarrow> ValueSet \<Rightarrow> ValueSet" where
  "set_value v vs = {|v|}"

definition union_vs :: "ValueSet \<Rightarrow> ValueSet \<Rightarrow> ValueSet" where
  "union_vs vs other = vs |\<union>| other"

definition size_vs :: "ValueSet \<Rightarrow> nat" where
  "size_vs vs = fcard vs"

text \<open>
  A loop whose body may throw or may not come back: \<open>None\<close> is a computation cut off at
  the depth bound, \<open>Some (Inl e)\<close> a thrown error, \<open>Some (Inr s)\<close> a normal result.
\<close>

fun fold_res :: "('a \<Rightarrow> 's \<Rightarrow> (error + 's) option) \<Rightarrow> 'a list \<Rightarrow> 's \<Rightarrow> (error + 's) option" where
  "fold_res f [] s = Some (Inr s)"
| "fold_res f (x # xs) s =
     (case f x s of
        None \<Rightarrow> None
      | Some (Inl e) \<Rightarrow> Some (Inl e)
      | Some (Inr s') \<Rightarrow> fold_res f xs s')"

text \<open>
  The cases \<open>leti\<close>, \<open>letb\<close>, \<open>letw\<close> and \<open>leto\<close> of the \<open>switch\<close> of \<open>find_value_set\<close>.
\<close>

definition immediate_load :: "Arg list \<Rightarrow> int \<Rightarrow> ValueSet \<Rightarrow> (error + ValueSet) option" where
  "immediate_load as register values =
     (case arg_at as 0 of
        Inl e \<Rightarrow> Some (Inl e)
      | Inr a0 \<Rightarrow>
          if a0 = register
          then (case arg_at as 1 of
                  Inl e \<Rightarrow> Some (Inl e)
                | Inr a1 \<Rightarrow> Some (Inr (set_value a1 values)))
          else Some (Inr values))"

text \<open>
  The body of the first loop of \<open>find_value_set\<close> at index \<open>i\<close>; \<open>recur i r\<close> stands
  for the recursive call \<open>find_value_set(block, i, r)\<close>. Reading \<open>instruction.args\<close>
  of an index outside the segment throws.
\<close>

definition scan_step ::
  "(nat \<Rightarrow> int \<Rightarrow> (error + ValueSet) option) \<Rightarrow> Instruction list \<Rightarrow> int \<Rightarrow> nat \<Rightarrow> ValueSet \<Rightarrow>
   (error + ValueSet) option" where
  "scan_step recur insts register i values =
     (if i < length insts
      then (case opcode (insts ! i) of
              Op_let \<Rightarrow>
                (case arg_at (args (insts ! i)) 0 of
                   Inl e \<Rightarrow> Some (Inl e)
                 | Inr a0 \<Rightarrow>
                     if a0 = register
                     then (case arg_at (args (insts ! i)) 1 of
                             Inl e \<Rightarrow> Some (Inl e)
                           | Inr a1 \<Rightarrow> recur i a1)
                     else Some (Inr values))
            | Op_leti \<Rightarrow> immediate_load (args (insts ! i)) register values
            | Op_letb \<Rightarrow> immediate_load (args (insts ! i)) register values
            | Op_letw \<Rightarrow> immediate_load (args (insts ! i)) register values
            | Op_leto \<Rightarrow> immediate_load (args (insts ! i)) register values
            | _ \<Rightarrow> Some (Inr values))
      else Some (Inl TypeError))"

text \<open>The body of the second loop of \<open>find_value_set\<close>, over \<open>block.from\<close>.\<close>

definition union_step ::
  "(nat \<Rightarrow> (error + ValueSet) option) \<Rightarrow> nat \<Rightarrow> ValueSet \<Rightarrow> (error + ValueSet) option" where
  "union_step recur from_block values =
     (case recur from_block of
        None \<Rightarrow> None
      | Some (Inl e) \<Rightarrow> Some (Inl e)
      | Some (Inr other) \<Rightarrow> Some (Inr (union_vs values other)))"

text \<open>
  \<open>find_value_set\<close> calls itself with no bound on the depth; the first argument bounds
  the depth of the calls, and \<open>None\<close> is a query that was cut off at that depth.
\<close>

fun find_value_set ::
  "nat \<Rightarrow> BasicBlock list \<Rightarrow> nat \<Rightarrow> nat \<Rightarrow> int \<Rightarrow> (error + ValueSet) option" where
  "find_value_set 0 bs block end register = None"
| "find_value_set (Suc n) bs block end register =
     (case fold_res
             (scan_step (\<lambda>i r. find_value_set n bs block i r)
                (instructions (segment (bs ! block))) register)
             [start (bs ! block)..<end] new_ValueSet of
        None \<Rightarrow> None
      | Some (Inl e) \<Rightarrow> Some (Inl e)
      | Some (Inr values) \<Rightarrow>
          if size_vs values = 0
          then fold_res
                 (union_step (\<lambda>from_block.
                    find_value_set n bs from_block (end_idx (bs ! from_block)) register))
                 (from_blocks (bs ! block)) values
          else Some (Inr values))"

text \<open>The \<open>while\<close> loop of \<open>register_value_set\<close>.\<close>

function find_inst_idx :: "BasicBlock \<Rightarrow> nat \<Rightarrow> nat \<Rightarrow> nat" where
  "find_inst_idx block r inst_idx =
     (if inst_idx < end_idx block
      then (if inst_idx < length (instructions (segment block)) \<and>
               iref (instructions (segment block) ! inst_idx) = r
            then inst_idx
            else find_inst_idx block r (inst_idx + 1))
      else inst_idx)"
  by pat_completeness auto
termination
  by (relation "measure (\<lambda>(block, r, inst_idx). end_idx block - inst_idx)") auto

declare find_inst_idx.simps [simp del]

definition register_value_set ::
  "nat \<Rightarrow> ControlFlowGraph \<Rightarrow> Instruction \<Rightarrow> int \<Rightarrow> (error + ValueSet) option" where
  "register_value_set n cfg instruction register =
     (case cfg_instructions cfg (iref instruction) of
        Some block \<Rightarrow>
          find_value_set n (blocks cfg) block
            (find_inst_idx (blocks cfg ! block) (iref instruction) (start (blocks cfg ! block)))
            register
      | None \<Rightarrow> Some (Inr new_ValueSet))"

section \<open>Stepping in the quest runner\<close>



record ExecutionLocation =
  seg_idx :: nat
  inst_idx :: nat






text \<open>\<open>Inr None\<close> is the result \<open>undefined\<close> of the \<open>switch\<close> without a matching case.\<close>

definition get_step_innable_instruction_label_argument :: "Instruction \<Rightarrow> error + int option" where
  "get_step_innable_instruction_label_argument instr =
     (case opcode instr of
        Op_va_call \<Rightarrow> map_sum id Some (arg_at (args instr) 0)
      | Op_call \<Rightarrow> map_sum id Some (arg_at (args instr) 0)
      | Op_switch_call \<Rightarrow> map_sum id Some (arg_at (args instr) 1)
      | _ \<Rightarrow> Inr None)"




definition block_range :: "BasicBlock \<Rightarrow> InstructionSegment \<times> nat \<times> nat" where
  "block_range b = (segment b, start b, end_idx b)"

fun tiles :: "(InstructionSegment \<times> nat \<times> nat) list \<Rightarrow> InstructionSegment \<Rightarrow> nat \<Rightarrow> nat \<Rightarrow> bool" where
  "tiles [] seg lo hi = (lo = hi)"
| "tiles ((s, b, e) # rs) seg lo hi = (s = seg \<and> b = lo \<and> lo < e \<and> tiles rs seg e hi)"

definition block_instructions :: "BasicBlock \<Rightarrow> Instruction list" where
  "block_instructions b = take (end_idx b - start b) (drop (start b) (instructions (segment b)))"

definition range_refs :: "Instruction list \<Rightarrow> nat \<Rightarrow> nat \<Rightarrow> nat set" where
  "range_refs insts lo hi = (\<lambda>j. iref (insts ! j)) ` {lo..<hi}"

definition covered_refs :: "BasicBlock list \<Rightarrow> nat set" where
  "covered_refs bs = (\<Union>b \<in> set bs. range_refs (instructions (segment b)) (start b) (end_idx b))"

definition map_ok :: "ControlFlowGraph \<Rightarrow> bool" where
  "map_ok cfg \<longleftrightarrow>
     (\<forall>b < length (blocks cfg). \<forall>j. start (blocks cfg ! b) \<le> j \<and> j < end_idx (blocks cfg ! b) \<longrightarrow>
        cfg_instructions cfg (iref (instructions (segment (blocks cfg ! b)) ! j)) = Some b)"

definition labels_ok :: "BasicBlock list \<Rightarrow> (int \<rightharpoonup> nat) \<Rightarrow> bool" where
  "labels_ok bs lb \<longleftrightarrow>
     (\<forall>l t. lb l = Some t \<longrightarrow>
        t < length bs \<and> start (bs ! t) = 0 \<and> l \<in> set (labels (segment (bs ! t))))"

definition unlinked :: "BasicBlock list \<Rightarrow> bool" where
  "unlinked bs \<longleftrightarrow> (\<forall>b \<in> set bs. from_blocks b = [] \<and> to_blocks b = [])"




definition static :: "BasicBlock \<Rightarrow> InstructionSegment \<times> nat \<times> nat \<times> BranchType \<times> int list" where
  "static b = (segment b, start b, end_idx b, branch_type b, branch_labels b)"

text \<open>The fallthrough successor that \<open>link_blocks\<close> gives block \<open>i\<close> of \<open>bs\<close>.\<close>

definition fallthrough :: "BasicBlock list \<Rightarrow> nat \<Rightarrow> nat list" where
  "fallthrough bs i =
     (if branch_type (bs ! i) \<in> {None_branch, ConditionalJump} \<and> i + 1 < length bs
      then [i + 1] else [])"

definition call_pair :: "BasicBlock list \<Rightarrow> nat \<Rightarrow> (nat \<times> nat) list" where
  "call_pair bs i = (if branch_type (bs ! i) = Call \<and> i + 1 < length bs then [(i, i + 1)] else [])"

definition keeps :: "BasicBlock list \<Rightarrow> BasicBlock list \<Rightarrow> bool" where
  "keeps bs bs' \<longleftrightarrow>
     map static bs' = map static bs \<and>
     (\<forall>j < length bs. branch_type (bs ! j) \<noteq> Return \<longrightarrow> to_blocks (bs' ! j) = to_blocks (bs ! j))"

text \<open>
  The operands that \<open>create_basic_blocks\<close> reads from an instruction are present.
\<close>

definition operands_ok :: "Instruction \<Rightarrow> bool" where
  "operands_ok inst = (case branch_of inst True of Inl e \<Rightarrow> False | Inr r \<Rightarrow> True)"

text \<open>
  Every reference in a \<open>to\<close> or \<open>from\<close> array is a block of the list, and block \<open>b\<close>
  occurs in the \<open>to\<close> array of block \<open>a\<close> as often as \<open>a\<close> occurs in the \<open>from\<close> array
  of \<open>b\<close>.
\<close>

definition mirrored :: "BasicBlock list \<Rightarrow> bool" where
  "mirrored bs \<longleftrightarrow>
     (\<forall>a < length bs. \<forall>b < length bs.
        count_list (to_blocks (bs ! a)) b = count_list (from_blocks (bs ! b)) a) \<and>
     (\<forall>a < length bs. (\<forall>t \<in> set (to_blocks (bs ! a)). t < length bs) \<and>
                        (\<forall>f \<in> set (from_blocks (bs ! a)). f < length bs))"

text \<open>Example programs. \<open>new_instruction r oc vs\<close> is the instruction object \<open>r\<close> with opcode \<open>oc\<close> and
  operand values \<open>vs\<close>, not produced from text.\<close>

definition new_instruction :: "nat \<Rightarrow> Opcode \<Rightarrow> int list \<Rightarrow> Instruction" where
  "new_instruction r oc vs = \<lparr>iref = r, opcode = oc, args = map (\<lambda>v. \<lparr>arg_value = v\<rparr>) vs, asm = None\<rparr>"

text \<open>
  Four segments: a conditional jump to label 1 followed by a call of label 3; a segment of
  one plain instruction; a jump to label 7, which no segment carries; and a \<open>ret\<close>.
\<close>

definition linking_example :: "InstructionSegment list" where
  "linking_example =
     [\<lparr>labels = [0], instructions =
         [new_instruction 0 (Op_other 1) [], new_instruction 1 Op_jmp_e [1, 2, 1], new_instruction 2 Op_call [3]]\<rparr>,
      \<lparr>labels = [1], instructions = [new_instruction 3 (Op_other 2) []]\<rparr>,
      \<lparr>labels = [2], instructions = [new_instruction 4 Op_jmp [7]]\<rparr>,
      \<lparr>labels = [3], instructions = [new_instruction 5 Op_ret []]\<rparr>]"

text \<open>
  A plain instruction, a labelled segment without instructions, and a call of its own
  segment as the last block of the program.
\<close>

definition last_call_example :: "InstructionSegment list" where
  "last_call_example =
     [\<lparr>labels = [0], instructions = [new_instruction 0 (Op_other 1) []]\<rparr>,
      \<lparr>labels = [9], instructions = []\<rparr>,
      \<lparr>labels = [5], instructions = [new_instruction 1 Op_call [5]]\<rparr>]"

text \<open>
  The body of the scan leaves the accumulated set alone at \<open>inst\<close>: \<open>inst\<close> is not one
  of the five opcodes that the scan looks at, or its first operand is another register.
\<close>

definition passes :: "Instruction \<Rightarrow> int \<Rightarrow> bool" where
  "passes inst register =
     (if opcode inst \<in> {Op_let, Op_leti, Op_letb, Op_letw, Op_leto}
      then (case arg_at (args inst) 0 of Inl e \<Rightarrow> False | Inr a \<Rightarrow> a \<noteq> register)
      else True)"

definition copy_example :: "InstructionSegment list" where
  "copy_example =
     [\<lparr>labels = [0], instructions = [new_instruction 0 Op_leti [1, 7]]\<rparr>,
      \<lparr>labels = [1], instructions =
         [new_instruction 1 Op_leti [1, 9], new_instruction 2 Op_let [1, 2],
          new_instruction 3 Op_leti [5, 0], new_instruction 4 Op_ret []]\<rparr>]"

text \<open>A subroutine that calls itself: \<open>0: call 0; ret\<close>.\<close>

definition recursive_example :: "InstructionSegment list" where
  "recursive_example =
     [\<lparr>labels = [0], instructions = [new_instruction 0 Op_call [0], new_instruction 1 Op_ret []]\<rparr>]"

text \<open>A jump that is never given its operand.\<close>

definition malformed_example :: "InstructionSegment list" where
  "malformed_example = [\<lparr>labels = [0], instructions = [new_instruction 0 Op_jmp []]\<rparr>]"

text \<open>A block that jumps to itself: \<open>0: jmp 0\<close>.\<close>

definition loop_example :: "InstructionSegment list" where
  "loop_example = [\<lparr>labels = [0], instructions = [new_instruction 0 Op_jmp [0]]\<rparr>]"

text \<open>
  Two blocks that load 1 and 2 into register 2 and jump to label 2, and the block at
  label 2, which does not assign register 2.
\<close>

definition join_example :: "InstructionSegment list" where
  "join_example =
     [\<lparr>labels = [0], instructions = [new_instruction 0 Op_leti [2, 1], new_instruction 1 Op_jmp [2]]\<rparr>,
      \<lparr>labels = [1], instructions = [new_instruction 2 Op_leti [2, 2], new_instruction 3 Op_jmp [2]]\<rparr>,
      \<lparr>labels = [2], instructions = [new_instruction 4 Op_ret []]\<rparr>]"

text \<open>
  The reference definition of the value-set query, written from the words of the spec:
  scan backward from the query position within the block; a direct-immediate-load to the
  register yields a singleton set and stops the scan; a register-to-register copy to the
  register resolves the source register at the copy point; every other instruction is
  skipped; when the block start is reached without a resolving instruction the result is
  the union over the predecessor blocks, queried at their ends. \<open>at_start\<close> is the
  result at the block start, and the indices are given nearest first.
\<close>

fun spec_scan ::
  "(nat \<Rightarrow> int \<Rightarrow> (error + ValueSet) option) \<Rightarrow> (error + ValueSet) option \<Rightarrow>
   Instruction list \<Rightarrow> int \<Rightarrow> nat list \<Rightarrow> (error + ValueSet) option" where
  "spec_scan recur at_start insts register [] = at_start"
| "spec_scan recur at_start insts register (i # rest) =
     (if i < length insts
      then (if opcode (insts ! i) \<in> {Op_let, Op_leti, Op_letb, Op_letw, Op_leto}
            then (case arg_at (args (insts ! i)) 0 of
                    Inl e \<Rightarrow> Some (Inl e)
                  | Inr a0 \<Rightarrow>
                      if a0 = register
                      then (case arg_at (args (insts ! i)) 1 of
                              Inl e \<Rightarrow> Some (Inl e)
                            | Inr a1 \<Rightarrow>
                                if opcode (insts ! i) = Op_let then recur i a1
                                else Some (Inr {|a1|}))
                      else spec_scan recur at_start insts register rest)
            else spec_scan recur at_start insts register rest)
      else Some (Inl TypeError))"

fun spec_value_set ::
  "nat \<Rightarrow> BasicBlock list \<Rightarrow> nat \<Rightarrow> nat \<Rightarrow> int \<Rightarrow> (error + ValueSet) option" where
  "spec_value_set 0 bs block pos register = None"
| "spec_value_set (Suc n) bs block pos register =
     spec_scan (\<lambda>i r. spec_value_set n bs block i r)
       (fold_res (union_step (\<lambda>p. spec_value_set n bs p (end_idx (bs ! p)) register))
          (from_blocks (bs ! block)) {||})
       (instructions (segment (bs ! block))) register (rev [start (bs ! block)..<pos])"

definition spec_register_value_set ::
  "nat \<Rightarrow> ControlFlowGraph \<Rightarrow> Instruction \<Rightarrow> int \<Rightarrow> (error + ValueSet) option" where
  "spec_register_value_set n cfg instruction register =
     (case cfg_instructions cfg (iref instruction) of
        Some block \<Rightarrow>
          spec_value_set n (blocks cfg) block
            (find_inst_idx (blocks cfg ! block) (iref instruction) (start (blocks cfg ! block)))
            register
      | None \<Rightarrow> Some (Inr {||}))"

text \<open>
  The same definition with one change: the union over the predecessors is taken whenever
  the set that the scan of the block yields is empty, be it that no instruction resolved
  the register or that a copy resolved it to the empty set.
\<close>

fun amended_value_set ::
  "nat \<Rightarrow> BasicBlock list \<Rightarrow> nat \<Rightarrow> nat \<Rightarrow> int \<Rightarrow> (error + ValueSet) option" where
  "amended_value_set 0 bs block pos register = None"
| "amended_value_set (Suc n) bs block pos register =
     (case spec_scan (\<lambda>i r. amended_value_set n bs block i r) (Some (Inr {||}))
             (instructions (segment (bs ! block))) register (rev [start (bs ! block)..<pos]) of
        None \<Rightarrow> None
      | Some (Inl e) \<Rightarrow> Some (Inl e)
      | Some (Inr values) \<Rightarrow>
          if values = {||}
          then fold_res (union_step (\<lambda>p. amended_value_set n bs p (end_idx (bs ! p)) register))
                 (from_blocks (bs ! block)) {||}
          else Some (Inr values))"

definition amended_register_value_set ::
  "nat \<Rightarrow> ControlFlowGraph \<Rightarrow> Instruction \<Rightarrow> int \<Rightarrow> (error + ValueSet) option" where
  "amended_register_value_set n cfg instruction register =
     (case cfg_instructions cfg (iref instruction) of
        Some block \<Rightarrow>
          amended_value_set n (blocks cfg) block
            (find_inst_idx (blocks cfg ! block) (iref instruction) (start (blocks cfg ! block)))
            register
      | None \<Rightarrow> Some (Inr {||}))"

text \<open>\<open>0: leti r0, 5; ret\<close>.\<close>

definition load_example :: "InstructionSegment list" where
  "load_example =
     [\<lparr>labels = [0], instructions = [new_instruction 0 Op_leti [0, 5], new_instruction 1 Op_ret []]\<rparr>]"

text \<open>
  The operands that the scan of \<open>find_value_set\<close> reads are present: a copy or an
  immediate load carries its register and its source or value.
\<close>

definition load_ok :: "Instruction \<Rightarrow> bool" where
  "load_ok inst \<longleftrightarrow>
     (opcode inst \<in> {Op_let, Op_leti, Op_letb, Op_letw, Op_leto} \<longrightarrow> 2 \<le> length (args inst))"

text \<open>
  The blocks of a graph are well formed: the range of each block lies within the
  instruction list of its segment, the loads and copies of the range carry their operands,
  and the predecessors of each block are blocks of the graph.
\<close>

definition blocks_ok :: "BasicBlock list \<Rightarrow> bool" where
  "blocks_ok bs \<longleftrightarrow>
     (\<forall>b \<in> set bs.
        start b \<le> end_idx b \<and> end_idx b \<le> length (instructions (segment b)) \<and>
        list_all load_ok (block_instructions b) \<and>
        (\<forall>p \<in> set (from_blocks b). p < length bs))"

text \<open>
  No copy in the list is followed by another copy or immediate load into the same register.
\<close>

fun no_overridden_copy :: "Instruction list \<Rightarrow> bool" where
  "no_overridden_copy [] = True"
| "no_overridden_copy (inst # rest) =
     ((opcode inst = Op_let \<longrightarrow>
         (\<forall>x \<in> set rest. opcode x \<in> {Op_let, Op_leti, Op_letb, Op_letw, Op_leto} \<longrightarrow>
            arg_at (args x) 0 \<noteq> arg_at (args inst) 0)) \<and>
      no_overridden_copy rest)"

text \<open>A loop whose body copies a loaded register: \<open>0: leti r2, 4; let r1, r2; jmp 0\<close>.\<close>

definition copy_loop_example :: "InstructionSegment list" where
  "copy_loop_example =
     [\<lparr>labels = [0], instructions =
         [new_instruction 0 Op_leti [2, 4], new_instruction 1 Op_let [1, 2],
          new_instruction 2 Op_jmp [0]]\<rparr>]"

text \<open>
  A loop whose body overrides a copy by a later load:
  \<open>0: let r1, r2; leti r1, 5; jmp 0\<close>.
\<close>

definition overridden_copy_example :: "InstructionSegment list" where
  "overridden_copy_example =
     [\<lparr>labels = [0], instructions =
         [new_instruction 0 Op_let [1, 2], new_instruction 1 Op_leti [1, 5],
          new_instruction 2 Op_jmp [0]]\<rparr>]"

lemma fold_err_append:
  "fold_err f (xs @ ys) s = (case fold_err f xs s of Inl e \<Rightarrow> Inl e | Inr s' \<Rightarrow> fold_err f ys s')"
  by (induction xs arbitrary: s) (auto split: sum.splits)

lemma fold_err_snoc_Inr:
  "fold_err f (xs @ [x]) s = Inr t \<longleftrightarrow> (\<exists>s'. fold_err f xs s = Inr s' \<and> f x s' = Inr t)"
  by (auto simp: fold_err_append split: sum.splits)

lemma tiles_append:
  "tiles (xs @ ys) seg lo hi \<longleftrightarrow> (\<exists>mid. tiles xs seg lo mid \<and> tiles ys seg mid hi)"
  by (induction xs seg lo hi rule: tiles.induct) auto

lemma tiles_le: "tiles rs seg lo hi \<Longrightarrow> lo \<le> hi"
  by (induction rs seg lo hi rule: tiles.induct) auto

lemma branch_of_last: "branch_of inst True \<noteq> Inr None"
  by (cases "opcode inst")
     (simp_all add: branch_of_def one_label_def tail_labels_def split: sum.splits)

lemma bb_step_Inr:
  assumes "bb_step seg i st = Inr st'"
  shows "(st' = st \<and> i \<noteq> length (instructions seg) - 1) \<or>
         (\<exists>bt bl. branch_of (instructions seg ! i) (i = length (instructions seg) - 1) = Inr (Some (bt, bl)) \<and>
            st' = \<lparr>bb_start = i + 1, bb_first = False,
                   bb_cfg = \<lparr>blocks = blocks (bb_cfg st) @
                               [\<lparr>segment = seg, start = bb_start st, end_idx = i + 1,
                                 branch_type = bt, branch_labels = bl,
                                 from_blocks = [], to_blocks = []\<rparr>],
                             cfg_instructions =
                               set_instructions (instructions seg) (bb_start st) (i + 1)
                                 (length (blocks (bb_cfg st))) (cfg_instructions (bb_cfg st))\<rparr>,
                   bb_labels = (if bb_first st
                                then set_labels (labels seg) (length (blocks (bb_cfg st))) (bb_labels st)
                                else bb_labels st)\<rparr>)"
proof (cases "branch_of (instructions seg ! i) (i = length (instructions seg) - 1)")
  case (Inl e)
  with assms show ?thesis by (simp add: bb_step_def)
next
  case (Inr r)
  show ?thesis
  proof (cases r)
    case None
    with Inr branch_of_last [of "instructions seg ! i"] have "i \<noteq> length (instructions seg) - 1"
      by auto
    with assms Inr None show ?thesis by (simp add: bb_step_def)
  next
    case (Some p)
    with assms Inr show ?thesis
      by (cases p) (auto simp: bb_step_def Let_def)
  qed
qed

text \<open>The invariant of the loop of \<open>create_basic_blocks\<close> after the indices below \<open>k\<close>.\<close>

lemma bb_loop_tiles:
  assumes "fold_err (bb_step seg) [0..<k] st0 = Inr st"
    and "k \<le> length (instructions seg)" and "bb_start st0 = 0"
  shows "\<exists>new. blocks (bb_cfg st) = blocks (bb_cfg st0) @ new \<and>
           tiles (map block_range new) seg 0 (bb_start st) \<and> bb_start st \<le> k \<and>
           (k = length (instructions seg) \<longrightarrow> bb_start st = k) \<and>
           (\<forall>b \<in> set new. from_blocks b = [] \<and> to_blocks b = [])"
  using assms
proof (induction k arbitrary: st)
  case 0
  then show ?case by simp
next
  case (Suc k)
  from Suc.prems(1) obtain s' where s': "fold_err (bb_step seg) [0..<k] st0 = Inr s'"
    and step: "bb_step seg k s' = Inr st"
    by (auto simp: fold_err_snoc_Inr)
  from Suc.IH [OF s'] Suc.prems obtain new where new:
    "blocks (bb_cfg s') = blocks (bb_cfg st0) @ new"
    "tiles (map block_range new) seg 0 (bb_start s')" "bb_start s' \<le> k"
    "\<forall>b \<in> set new. from_blocks b = [] \<and> to_blocks b = []"
    by auto
  from bb_step_Inr [OF step] show ?case
  proof
    assume "st = s' \<and> k \<noteq> length (instructions seg) - 1"
    with new Suc.prems(2) show ?thesis by auto
  next
    assume "\<exists>bt bl. branch_of (instructions seg ! k) (k = length (instructions seg) - 1) = Inr (Some (bt, bl)) \<and>
            st = \<lparr>bb_start = k + 1, bb_first = False,
                   bb_cfg = \<lparr>blocks = blocks (bb_cfg s') @
                               [\<lparr>segment = seg, start = bb_start s', end_idx = k + 1,
                                 branch_type = bt, branch_labels = bl,
                                 from_blocks = [], to_blocks = []\<rparr>],
                             cfg_instructions =
                               set_instructions (instructions seg) (bb_start s') (k + 1)
                                 (length (blocks (bb_cfg s'))) (cfg_instructions (bb_cfg s'))\<rparr>,
                   bb_labels = (if bb_first s'
                                then set_labels (labels seg) (length (blocks (bb_cfg s'))) (bb_labels s')
                                else bb_labels s')\<rparr>"
    then obtain bt bl where st: "blocks (bb_cfg st) = blocks (bb_cfg s') @
                               [\<lparr>segment = seg, start = bb_start s', end_idx = k + 1,
                                 branch_type = bt, branch_labels = bl,
                                 from_blocks = [], to_blocks = []\<rparr>]" "bb_start st = k + 1"
      by auto
    let ?b = "\<lparr>segment = seg, start = bb_start s', end_idx = k + 1,
                                 branch_type = bt, branch_labels = bl,
                                 from_blocks = [], to_blocks = []\<rparr>"
    have "tiles (map block_range (new @ [?b])) seg 0 (k + 1)"
      using new(2,3) by (auto simp: tiles_append block_range_def)
    with st new show ?thesis
      by (intro exI [of _ "new @ [?b]"]) auto
  qed
qed

lemma fold_upd: "fold (\<lambda>j m. m(f j \<mapsto> b)) js m r = (if r \<in> f ` set js then Some b else m r)"
  by (induction js arbitrary: m) auto

lemma set_labels_apply: "set_labels ls b m l = (if l \<in> set ls then Some b else m l)"
  unfolding set_labels_def by (simp add: fold_upd [where f = "\<lambda>l. l"])

lemma set_instructions_apply:
  "set_instructions insts lo hi b m r = (if r \<in> range_refs insts lo hi then Some b else m r)"
  unfolding set_instructions_def range_refs_def
  by (simp add: fold_upd [where f = "\<lambda>j. iref (insts ! j)"])

lemma range_refs_disjoint:
  assumes "distinct (map iref insts)" and "b \<le> c" and "c \<le> d \<and> d \<le> length insts"
  shows "range_refs insts a b \<inter> range_refs insts c d = {}"
proof -
  have "inj_on (\<lambda>j. iref (insts ! j)) {0..<length insts}"
  proof (rule inj_onI)
    fix x y
    assume "x \<in> {0..<length insts}" "y \<in> {0..<length insts}"
      and "iref (insts ! x) = iref (insts ! y)"
    then show "x = y"
      using nth_eq_iff_index_eq [OF assms(1), of x y] by simp
  qed
  then have "(\<lambda>j. iref (insts ! j)) ` {a..<b} \<inter> (\<lambda>j. iref (insts ! j)) ` {c..<d} =
       (\<lambda>j. iref (insts ! j)) ` ({a..<b} \<inter> {c..<d})"
    using assms(2,3) by (intro inj_on_image_Int [symmetric]) auto
  with assms(2) show ?thesis by (simp add: range_refs_def)
qed

lemma range_refs_split:
  "a \<le> b \<Longrightarrow> b \<le> c \<Longrightarrow> range_refs insts a b \<union> range_refs insts b c = range_refs insts a c"
  unfolding range_refs_def by (auto simp: image_Un [symmetric] ivl_disj_un)

lemma range_refs_all: "range_refs insts 0 (length insts) = iref ` set insts"
  unfolding range_refs_def by (force simp: in_set_conv_nth)

lemma bb_loop_induct:
  assumes "fold_err (bb_step seg) [0..<k] st0 = Inr st" and "P 0 st0"
    and "\<And>j s s'. j < k \<Longrightarrow> P j s \<Longrightarrow> bb_step seg j s = Inr s' \<Longrightarrow> P (Suc j) s'"
  shows "P k st"
  using assms
proof (induction k arbitrary: st)
  case 0
  then show ?case by simp
next
  case (Suc k)
  from Suc.prems(1) obtain s' where s': "fold_err (bb_step seg) [0..<k] st0 = Inr s'"
    and step: "bb_step seg k s' = Inr st"
    by (auto simp: fold_err_snoc_Inr)
  have "P k s'"
    by (rule Suc.IH [OF s' Suc.prems(2)]) (rule Suc.prems(3), auto)
  then show ?case
    using Suc.prems(3) step by blast
qed

lemma bb_loop_labels:
  assumes "fold_err (bb_step seg) [0..<k] st0 = Inr st" and "bb_first st0"
  shows "(bb_first st \<longrightarrow> blocks (bb_cfg st) = blocks (bb_cfg st0) \<and> bb_labels st = bb_labels st0) \<and>
         (\<not> bb_first st \<longrightarrow> length (blocks (bb_cfg st0)) < length (blocks (bb_cfg st)) \<and>
            bb_labels st = set_labels (labels seg) (length (blocks (bb_cfg st0))) (bb_labels st0))"
proof (rule bb_loop_induct [OF assms(1)])
  show "(bb_first st0 \<longrightarrow> blocks (bb_cfg st0) = blocks (bb_cfg st0) \<and> bb_labels st0 = bb_labels st0) \<and>
         (\<not> bb_first st0 \<longrightarrow> length (blocks (bb_cfg st0)) < length (blocks (bb_cfg st0)) \<and>
            bb_labels st0 = set_labels (labels seg) (length (blocks (bb_cfg st0))) (bb_labels st0))"
    using assms(2) by simp
next
  fix j s s'
  assume "(bb_first s \<longrightarrow> blocks (bb_cfg s) = blocks (bb_cfg st0) \<and> bb_labels s = bb_labels st0) \<and>
         (\<not> bb_first s \<longrightarrow> length (blocks (bb_cfg st0)) < length (blocks (bb_cfg s)) \<and>
            bb_labels s = set_labels (labels seg) (length (blocks (bb_cfg st0))) (bb_labels st0))"
    and "bb_step seg j s = Inr s'"
  then show "(bb_first s' \<longrightarrow> blocks (bb_cfg s') = blocks (bb_cfg st0) \<and> bb_labels s' = bb_labels st0) \<and>
         (\<not> bb_first s' \<longrightarrow> length (blocks (bb_cfg st0)) < length (blocks (bb_cfg s')) \<and>
            bb_labels s' = set_labels (labels seg) (length (blocks (bb_cfg st0))) (bb_labels st0))"
    using bb_step_Inr [of seg j s s'] by (cases "bb_first s") auto
qed

lemma covered_refs_append: "covered_refs (xs @ ys) = covered_refs xs \<union> covered_refs ys"
  by (auto simp: covered_refs_def)

lemma bb_loop_map:
  assumes run: "fold_err (bb_step seg) [0..<k] st0 = Inr st"
    and k: "k \<le> length (instructions seg)" and s0: "bb_start st0 = 0"
    and ok: "map_ok (bb_cfg st0)"
    and d: "distinct (map iref (instructions seg))"
    and fresh: "covered_refs (blocks (bb_cfg st0)) \<inter> iref ` set (instructions seg) = {}"
  shows "map_ok (bb_cfg st) \<and> bb_start st \<le> k \<and>
         covered_refs (blocks (bb_cfg st)) =
           covered_refs (blocks (bb_cfg st0)) \<union> range_refs (instructions seg) 0 (bb_start st)"
proof (rule bb_loop_induct [OF run])
  show "map_ok (bb_cfg st0) \<and> bb_start st0 \<le> 0 \<and>
         covered_refs (blocks (bb_cfg st0)) =
           covered_refs (blocks (bb_cfg st0)) \<union> range_refs (instructions seg) 0 (bb_start st0)"
    using ok s0 by (simp add: range_refs_def)
next
  fix j s s'
  assume j: "j < k"
    and inv: "map_ok (bb_cfg s) \<and> bb_start s \<le> j \<and>
         covered_refs (blocks (bb_cfg s)) =
           covered_refs (blocks (bb_cfg st0)) \<union> range_refs (instructions seg) 0 (bb_start s)"
    and step: "bb_step seg j s = Inr s'"
  let ?insts = "instructions seg"
  let ?goal = "map_ok (bb_cfg s') \<and> bb_start s' \<le> Suc j \<and>
         covered_refs (blocks (bb_cfg s')) =
           covered_refs (blocks (bb_cfg st0)) \<union> range_refs ?insts 0 (bb_start s')"
  from bb_step_Inr [OF step] show ?goal
  proof
    assume "s' = s \<and> j \<noteq> length ?insts - 1"
    with inv show ?goal by auto
  next
    assume "\<exists>bt bl. branch_of (?insts ! j) (j = length ?insts - 1) = Inr (Some (bt, bl)) \<and>
            s' = \<lparr>bb_start = j + 1, bb_first = False,
                   bb_cfg = \<lparr>blocks = blocks (bb_cfg s) @
                               [\<lparr>segment = seg, start = bb_start s, end_idx = j + 1,
                                 branch_type = bt, branch_labels = bl,
                                 from_blocks = [], to_blocks = []\<rparr>],
                             cfg_instructions =
                               set_instructions ?insts (bb_start s) (j + 1)
                                 (length (blocks (bb_cfg s))) (cfg_instructions (bb_cfg s))\<rparr>,
                   bb_labels = (if bb_first s
                                then set_labels (labels seg) (length (blocks (bb_cfg s))) (bb_labels s)
                                else bb_labels s)\<rparr>"
    then obtain bt bl where
      bs': "blocks (bb_cfg s') = blocks (bb_cfg s) @
              [\<lparr>segment = seg, start = bb_start s, end_idx = j + 1,
                branch_type = bt, branch_labels = bl, from_blocks = [], to_blocks = []\<rparr>]"
      and m': "cfg_instructions (bb_cfg s') =
                 set_instructions ?insts (bb_start s) (j + 1)
                   (length (blocks (bb_cfg s))) (cfg_instructions (bb_cfg s))"
      and st': "bb_start s' = j + 1"
      by auto
    let ?new = "range_refs ?insts (bb_start s) (j + 1)"
    have le: "bb_start s \<le> j + 1" "j + 1 \<le> length ?insts"
      using inv j k by auto
    have new_sub: "?new \<subseteq> iref ` set ?insts"
      using le by (auto simp: range_refs_def)
    have "?new \<inter> range_refs ?insts 0 (bb_start s) = {}"
      using range_refs_disjoint [OF d, of "bb_start s" "bb_start s" "j + 1" 0] le by auto
    with new_sub fresh inv have disj: "?new \<inter> covered_refs (blocks (bb_cfg s)) = {}"
      by auto
    have cov: "covered_refs (blocks (bb_cfg s')) =
           covered_refs (blocks (bb_cfg st0)) \<union> range_refs ?insts 0 (bb_start s')"
      using inv le range_refs_split [of 0 "bb_start s" "j + 1" ?insts]
      by (auto simp: bs' st' covered_refs_append covered_refs_def)
    have "map_ok (bb_cfg s')"
      unfolding map_ok_def
    proof (intro allI impI)
      fix b i
      assume b: "b < length (blocks (bb_cfg s'))"
        and i: "start (blocks (bb_cfg s') ! b) \<le> i \<and> i < end_idx (blocks (bb_cfg s') ! b)"
      show "cfg_instructions (bb_cfg s') (iref (instructions (segment (blocks (bb_cfg s') ! b)) ! i)) = Some b"
      proof (cases "b < length (blocks (bb_cfg s))")
        case True
        then have same: "blocks (bb_cfg s') ! b = blocks (bb_cfg s) ! b"
          by (simp add: bs' nth_append)
        let ?r = "iref (instructions (segment (blocks (bb_cfg s) ! b)) ! i)"
        have "?r \<in> covered_refs (blocks (bb_cfg s))"
          using True i same unfolding covered_refs_def range_refs_def
          by (auto intro!: bexI [of _ "blocks (bb_cfg s) ! b"])
        with disj have "?r \<notin> ?new" by auto
        moreover have "cfg_instructions (bb_cfg s) ?r = Some b"
          using inv True i same by (simp add: map_ok_def)
        ultimately show ?thesis
          by (simp add: m' same set_instructions_apply)
      next
        case False
        with b have beq: "b = length (blocks (bb_cfg s))"
          by (simp add: bs')
        have blk: "blocks (bb_cfg s') ! length (blocks (bb_cfg s)) =
              \<lparr>segment = seg, start = bb_start s, end_idx = j + 1,
                branch_type = bt, branch_labels = bl, from_blocks = [], to_blocks = []\<rparr>"
          by (simp add: bs')
        with i beq have "iref (?insts ! i) \<in> ?new"
          by (auto simp: range_refs_def)
        then show ?thesis
          unfolding beq by (simp add: m' blk set_instructions_apply)
      qed
    qed
    with cov st' show ?goal by simp
  qed
qed

lemma tiles_Nil_iff:
  assumes "tiles rs seg 0 hi"
  shows "rs = [] \<longleftrightarrow> hi = 0"
proof (cases rs)
  case Nil
  with assms show ?thesis by auto
next
  case (Cons r rest)
  obtain s b e where r: "r = (s, b, e)"
    by (cases r)
  with assms Cons have "0 < e" and "tiles rest seg e hi"
    by auto
  with tiles_le [of rest seg e hi] Cons show ?thesis
    by auto
qed

lemma create_basic_blocks_blocks:
  assumes "create_basic_blocks seg (cfg, lb) = Inr (cfg', lb')"
  shows "\<exists>new. blocks cfg' = blocks cfg @ new \<and>
           tiles (map block_range new) seg 0 (length (instructions seg)) \<and>
           unlinked new \<and> (new = [] \<longleftrightarrow> instructions seg = []) \<and>
           lb' = (if new = [] then lb else set_labels (labels seg) (length (blocks cfg)) lb)"
proof -
  let ?st0 = "\<lparr>bb_start = 0, bb_first = True, bb_cfg = cfg, bb_labels = lb\<rparr>"
  from assms obtain st where run: "fold_err (bb_step seg) [0..<length (instructions seg)] ?st0 = Inr st"
    and st: "bb_cfg st = cfg'" "bb_labels st = lb'"
    by (auto simp: create_basic_blocks_def split: sum.splits)
  from bb_loop_tiles [OF run] obtain new where new:
    "blocks (bb_cfg st) = blocks cfg @ new"
    "tiles (map block_range new) seg 0 (length (instructions seg))"
    "\<forall>b \<in> set new. from_blocks b = [] \<and> to_blocks b = []"
    by auto
  from tiles_Nil_iff [OF new(2)] have e: "new = [] \<longleftrightarrow> instructions seg = []"
    by simp
  from bb_loop_labels [OF run] new(1)
  have "bb_labels st = (if new = [] then lb else set_labels (labels seg) (length (blocks cfg)) lb)"
    by (cases "bb_first st") auto
  with new e st show ?thesis
    by (auto simp: unlinked_def)
qed

lemma create_basic_blocks_map:
  assumes "create_basic_blocks seg (cfg, lb) = Inr (cfg', lb')"
    and "map_ok cfg" and "distinct (map iref (instructions seg))"
    and "covered_refs (blocks cfg) \<inter> iref ` set (instructions seg) = {}"
  shows "map_ok cfg' \<and>
         covered_refs (blocks cfg') = covered_refs (blocks cfg) \<union> iref ` set (instructions seg)"
proof -
  let ?st0 = "\<lparr>bb_start = 0, bb_first = True, bb_cfg = cfg, bb_labels = lb\<rparr>"
  from assms(1) obtain st where run: "fold_err (bb_step seg) [0..<length (instructions seg)] ?st0 = Inr st"
    and st: "bb_cfg st = cfg'"
    by (auto simp: create_basic_blocks_def split: sum.splits)
  from bb_loop_tiles [OF run] have "bb_start st = length (instructions seg)"
    by auto
  with bb_loop_map [OF run] assms(2-4) st show ?thesis
    by (simp add: range_refs_all)
qed

lemma create_basic_blocks_labels_ok:
  assumes "create_basic_blocks seg (cfg, lb) = Inr (cfg', lb')" and "labels_ok (blocks cfg) lb"
  shows "labels_ok (blocks cfg') lb'"
proof -
  from create_basic_blocks_blocks [OF assms(1)] obtain new where new:
    "blocks cfg' = blocks cfg @ new"
    "tiles (map block_range new) seg 0 (length (instructions seg))"
    "lb' = (if new = [] then lb else set_labels (labels seg) (length (blocks cfg)) lb)"
    by auto
  show ?thesis
  proof (cases new)
    case Nil
    with new assms(2) show ?thesis by simp
  next
    case (Cons b rest)
    with new(2) have b: "segment b = seg" "start b = 0"
      by (auto simp: block_range_def)
    show ?thesis
      unfolding labels_ok_def
    proof (intro allI impI)
      fix l t
      assume "lb' l = Some t"
      with new(3) Cons have "(l \<in> set (labels seg) \<and> t = length (blocks cfg)) \<or> lb l = Some t"
        by (auto simp: set_labels_apply split: if_splits)
      then show "t < length (blocks cfg') \<and> start (blocks cfg' ! t) = 0 \<and>
                 l \<in> set (labels (segment (blocks cfg' ! t)))"
      proof
        assume "l \<in> set (labels seg) \<and> t = length (blocks cfg)"
        with new(1) Cons b show ?thesis by simp
      next
        assume "lb l = Some t"
        with assms(2) have "t < length (blocks cfg) \<and> start (blocks cfg ! t) = 0 \<and>
                 l \<in> set (labels (segment (blocks cfg ! t)))"
          by (simp add: labels_ok_def)
        with new(1) show ?thesis by (simp add: nth_append)
      qed
    qed
  qed
qed

lemma unlinked_append: "unlinked (xs @ ys) \<longleftrightarrow> unlinked xs \<and> unlinked ys"
  by (auto simp: unlinked_def)

text \<open>The loop over the segments, from any graph and label map.\<close>

lemma create_segments_blocks:
  assumes "fold_err create_basic_blocks segs (cfg, lb) = Inr (cfg', lb')"
  shows "\<exists>rss. map block_range (blocks cfg') = map block_range (blocks cfg) @ concat rss \<and>
           list_all2 (\<lambda>rs seg. tiles rs seg 0 (length (instructions seg))) rss segs \<and>
           (unlinked (blocks cfg) \<longrightarrow> unlinked (blocks cfg')) \<and>
           (labels_ok (blocks cfg) lb \<longrightarrow> labels_ok (blocks cfg') lb')"
  using assms
proof (induction segs arbitrary: cfg lb)
  case Nil
  then show ?case by simp
next
  case (Cons seg segs)
  from Cons.prems obtain cfg1 lb1 where one: "create_basic_blocks seg (cfg, lb) = Inr (cfg1, lb1)"
    and rest: "fold_err create_basic_blocks segs (cfg1, lb1) = Inr (cfg', lb')"
    by (auto split: sum.splits)
  from create_basic_blocks_blocks [OF one] obtain new where new:
    "blocks cfg1 = blocks cfg @ new"
    "tiles (map block_range new) seg 0 (length (instructions seg))" "unlinked new"
    by auto
  from Cons.IH [OF rest] obtain rss where rss:
    "map block_range (blocks cfg') = map block_range (blocks cfg1) @ concat rss"
    "list_all2 (\<lambda>rs seg. tiles rs seg 0 (length (instructions seg))) rss segs"
    "unlinked (blocks cfg1) \<longrightarrow> unlinked (blocks cfg')"
    "labels_ok (blocks cfg1) lb1 \<longrightarrow> labels_ok (blocks cfg') lb'"
    by auto
  show ?case
  proof (intro exI [of _ "map block_range new # rss"] conjI)
    show "map block_range (blocks cfg') =
            map block_range (blocks cfg) @ concat (map block_range new # rss)"
      using rss(1) new(1) by simp
    show "list_all2 (\<lambda>rs seg. tiles rs seg 0 (length (instructions seg)))
            (map block_range new # rss) (seg # segs)"
      using rss(2) new(2) by simp
    show "unlinked (blocks cfg) \<longrightarrow> unlinked (blocks cfg')"
      using rss(3) new(1,3) by (simp add: unlinked_append)
    show "labels_ok (blocks cfg) lb \<longrightarrow> labels_ok (blocks cfg') lb'"
      using rss(4) create_basic_blocks_labels_ok [OF one] by simp
  qed
qed

lemma create_segments_map:
  assumes "fold_err create_basic_blocks segs (cfg, lb) = Inr (cfg', lb')"
    and "map_ok cfg" and "distinct (map iref (concat (map instructions segs)))"
    and "covered_refs (blocks cfg) \<inter> iref ` set (concat (map instructions segs)) = {}"
  shows "map_ok cfg'"
  using assms
proof (induction segs arbitrary: cfg lb)
  case Nil
  then show ?case by simp
next
  case (Cons seg segs)
  from Cons.prems(1) obtain cfg1 lb1 where one: "create_basic_blocks seg (cfg, lb) = Inr (cfg1, lb1)"
    and rest: "fold_err create_basic_blocks segs (cfg1, lb1) = Inr (cfg', lb')"
    by (auto split: sum.splits)
  have d: "distinct (map iref (instructions seg))"
    "distinct (map iref (concat (map instructions segs)))"
    "iref ` set (instructions seg) \<inter> iref ` set (concat (map instructions segs)) = {}"
    using Cons.prems(3) by auto
  have f: "covered_refs (blocks cfg) \<inter> iref ` set (instructions seg) = {}"
    "covered_refs (blocks cfg) \<inter> iref ` set (concat (map instructions segs)) = {}"
    using Cons.prems(4) by auto
  from create_basic_blocks_map [OF one Cons.prems(2) d(1) f(1)]
  have ok1: "map_ok cfg1"
    and cov: "covered_refs (blocks cfg1) = covered_refs (blocks cfg) \<union> iref ` set (instructions seg)"
    by auto
  from cov d(3) f(2)
  have "covered_refs (blocks cfg1) \<inter> iref ` set (concat (map instructions segs)) = {}"
    by blast
  from Cons.IH [OF rest ok1 d(2) this] show ?case .
qed

lemma create_all_blocks_props:
  assumes "create_all_blocks segs = Inr (cfg, lb)"
  shows "\<exists>rss. map block_range (blocks cfg) = concat rss \<and>
           list_all2 (\<lambda>rs seg. tiles rs seg 0 (length (instructions seg))) rss segs"
    and "unlinked (blocks cfg)" and "labels_ok (blocks cfg) lb"
    and "distinct (map iref (concat (map instructions segs))) \<Longrightarrow> map_ok cfg"
proof -
  from assms have run: "fold_err create_basic_blocks segs (empty_cfg, Map.empty) = Inr (cfg, lb)"
    by (simp add: create_all_blocks_def)
  from create_segments_blocks [OF run]
  show "\<exists>rss. map block_range (blocks cfg) = concat rss \<and>
           list_all2 (\<lambda>rs seg. tiles rs seg 0 (length (instructions seg))) rss segs"
    and "unlinked (blocks cfg)" and "labels_ok (blocks cfg) lb"
    by (auto simp: empty_cfg_def unlinked_def labels_ok_def)
  show "map_ok cfg" if "distinct (map iref (concat (map instructions segs)))"
    using create_segments_map [OF run _ that]
    by (simp add: empty_cfg_def map_ok_def covered_refs_def)
qed

lemma map_update_same: "f y = f (xs ! k) \<Longrightarrow> map f (xs[k := y]) = map f xs"
  by (cases "k < length xs") (simp_all add: map_update list_update_same_conv list_update_beyond)

lemma static_update [simp]:
  "static (b\<lparr>to_blocks := t\<rparr>) = static b" "static (b\<lparr>from_blocks := f\<rparr>) = static b"
  by (simp_all add: static_def)

lemma link_to_length [simp]: "length (link_to a b bs) = length bs"
  by (simp add: link_to_def Let_def)

lemma link_to_static [simp]: "map static (link_to a b bs) = map static bs"
  by (simp add: link_to_def Let_def map_update_same)

lemma link_to_to_blocks:
  "to_blocks (link_to a b bs ! i) =
     (if i = a \<and> a < length bs then to_blocks (bs ! a) @ [b] else to_blocks (bs ! i))"
proof (cases "a < length bs")
  case True
  then show ?thesis
    by (cases "b < length bs"; cases "i = b"; cases "i = a")
       (auto simp: link_to_def Let_def list_update_beyond)
next
  case False
  then show ?thesis
    by (cases "b < length bs"; cases "i = b") (auto simp: link_to_def Let_def list_update_beyond)
qed

lemma static_nth: "map static bs' = map static bs \<Longrightarrow> i < length bs \<Longrightarrow> static (bs' ! i) = static (bs ! i)"
  by (metis length_map nth_map)

lemma static_fields:
  assumes "static b' = static b"
  shows "segment b' = segment b" "start b' = start b" "end_idx b' = end_idx b"
    "branch_type b' = branch_type b" "branch_labels b' = branch_labels b"
  using assms by (simp_all add: static_def)

lemma link_labels_props:
  "length (link_labels lb i ls bs) = length bs \<and>
   map static (link_labels lb i ls bs) = map static bs \<and>
   (i < length bs \<longrightarrow>
     to_blocks (link_labels lb i ls bs ! j) =
       (if j = i then to_blocks (bs ! i) @ List.map_filter lb ls else to_blocks (bs ! j)))"
proof (induction ls arbitrary: bs)
  case Nil
  then show ?case by (simp add: link_labels_def)
next
  case (Cons l ls)
  have unf: "link_labels lb i (l # ls) bs =
      link_labels lb i ls (case lb l of None \<Rightarrow> bs | Some t \<Rightarrow> link_to i t bs)"
    by (simp add: link_labels_def)
  show ?case
    unfolding unf using Cons.IH [of "case lb l of None \<Rightarrow> bs | Some t \<Rightarrow> link_to i t bs"]
    by (cases "lb l") (auto simp: link_to_to_blocks)
qed

lemma link_step_props:
  assumes "i < length bs"
  shows "length (fst (link_step lb i (bs, cs))) = length bs \<and>
         map static (fst (link_step lb i (bs, cs))) = map static bs \<and>
         to_blocks (fst (link_step lb i (bs, cs)) ! j) =
           (if j = i \<and> branch_type (bs ! i) \<noteq> Return
            then to_blocks (bs ! i) @ fallthrough bs i @ List.map_filter lb (branch_labels (bs ! i))
            else to_blocks (bs ! j)) \<and>
         snd (link_step lb i (bs, cs)) = cs @ call_pair bs i"
proof (cases "branch_type (bs ! i)")
  case None_branch
  then show ?thesis
    using assms link_labels_props [of lb i "branch_labels (bs ! i)" "link_to i (i + 1) bs" j]
      link_labels_props [of lb i "branch_labels (bs ! i)" bs j]
    by (auto simp: link_step_def Let_def fallthrough_def call_pair_def link_to_to_blocks)
next
  case Return
  then show ?thesis
    by (simp add: link_step_def Let_def fallthrough_def call_pair_def)
next
  case Jump
  then show ?thesis
    using assms link_labels_props [of lb i "branch_labels (bs ! i)" bs j]
    by (auto simp: link_step_def Let_def fallthrough_def call_pair_def)
next
  case ConditionalJump
  then show ?thesis
    using assms link_labels_props [of lb i "branch_labels (bs ! i)" "link_to i (i + 1) bs" j]
      link_labels_props [of lb i "branch_labels (bs ! i)" bs j]
    by (auto simp: link_step_def Let_def fallthrough_def call_pair_def link_to_to_blocks)
next
  case Call
  then show ?thesis
    using assms link_labels_props [of lb i "branch_labels (bs ! i)" bs j]
    by (auto simp: link_step_def Let_def fallthrough_def call_pair_def)
qed

lemma fallthrough_static:
  "map static bs' = map static bs \<Longrightarrow> i < length bs \<Longrightarrow> fallthrough bs' i = fallthrough bs i"
  using static_fields(4) [OF static_nth, of bs' bs i] map_eq_imp_length_eq [of static bs' static bs]
  by (simp add: fallthrough_def)

lemma call_pair_static:
  "map static bs' = map static bs \<Longrightarrow> i < length bs \<Longrightarrow> call_pair bs' i = call_pair bs i"
  using static_fields(4) [OF static_nth, of bs' bs i] map_eq_imp_length_eq [of static bs' static bs]
  by (simp add: call_pair_def)

lemma link_edges_prefix:
  assumes "k \<le> length bs"
  shows "length (fst (fold (link_step lb) [0..<k] (bs, []))) = length bs \<and>
         map static (fst (fold (link_step lb) [0..<k] (bs, []))) = map static bs \<and>
         (\<forall>j. to_blocks (fst (fold (link_step lb) [0..<k] (bs, [])) ! j) =
           (if j < k \<and> branch_type (bs ! j) \<noteq> Return
            then to_blocks (bs ! j) @ fallthrough bs j @ List.map_filter lb (branch_labels (bs ! j))
            else to_blocks (bs ! j))) \<and>
         snd (fold (link_step lb) [0..<k] (bs, [])) = concat (map (call_pair bs) [0..<k])"
  using assms
proof (induction k)
  case 0
  then show ?case by simp
next
  case (Suc k)
  obtain bs1 cs1 where f: "fold (link_step lb) [0..<k] (bs, []) = (bs1, cs1)"
    by (cases "fold (link_step lb) [0..<k] (bs, [])")
  from Suc f have ih: "length bs1 = length bs" "map static bs1 = map static bs"
    "\<And>j. to_blocks (bs1 ! j) =
           (if j < k \<and> branch_type (bs ! j) \<noteq> Return
            then to_blocks (bs ! j) @ fallthrough bs j @ List.map_filter lb (branch_labels (bs ! j))
            else to_blocks (bs ! j))"
    "cs1 = concat (map (call_pair bs) [0..<k])"
    by auto
  have k: "k < length bs1" "k < length bs"
    using Suc.prems ih(1) by auto
  have st: "branch_type (bs1 ! k) = branch_type (bs ! k)" "branch_labels (bs1 ! k) = branch_labels (bs ! k)"
    using static_fields [OF static_nth [OF ih(2) k(2)]] by auto
  have unf: "fold (link_step lb) [0..<Suc k] (bs, []) = link_step lb k (bs1, cs1)"
    by (simp add: f)
  show ?case
    unfolding unf
    using link_step_props [OF k(1), of lb cs1] ih st
      fallthrough_static [OF ih(2) k(2)] call_pair_static [OF ih(2) k(2)]
    by (auto simp: less_Suc_eq)
qed

lemma keeps_refl: "keeps bs bs"
  by (simp add: keeps_def)

lemma keeps_trans:
  assumes "keeps a b" and "keeps b c"
  shows "keeps a c"
proof -
  have len: "length b = length a"
    using assms(1) map_eq_imp_length_eq [of static b static a] by (simp add: keeps_def)
  have "branch_type (b ! j) = branch_type (a ! j)" if "j < length a" for j
    using assms(1) static_fields(4) [OF static_nth [of b a j]] that by (simp add: keeps_def)
  with assms len show ?thesis
    by (simp add: keeps_def)
qed

lemma keeps_link_to:
  "branch_type (bs ! sub) = Return \<Longrightarrow> keeps bs (link_to sub ret bs)"
  by (auto simp: keeps_def link_to_to_blocks)

lemma fold_opt_invariant:
  assumes "fold_opt f xs s = Some s'" and "P s"
    and "\<And>x s s'. P s \<Longrightarrow> f x s = Some s' \<Longrightarrow> P s'"
  shows "P s'"
  using assms(1,2)
proof (induction xs arbitrary: s)
  case Nil
  then show ?case by simp
next
  case (Cons x xs)
  then show ?case
    using assms(3) by (auto split: option.splits)
qed

lemma link_returning_blocks_keeps:
  "link_returning_blocks n lb ret block bs = Some bs' \<Longrightarrow> keeps bs bs'"
proof (induction n arbitrary: block bs bs')
  case 0
  then show ?case by simp
next
  case (Suc n)
  from Suc.prems have run: "fold_opt
       (\<lambda>label bs.
          case lb label of
            None \<Rightarrow> Some bs
          | Some sub_block \<Rightarrow>
              link_returning_blocks n lb ret sub_block
                (if branch_type (bs ! sub_block) = Return then link_to sub_block ret bs else bs))
       (branch_labels (bs ! block)) bs = Some bs'"
    by simp
  show ?case
  proof (rule fold_opt_invariant [OF run, where P = "keeps bs"])
    show "keeps bs bs" by (rule keeps_refl)
  next
    fix l s s'
    assume k: "keeps bs s"
      and step: "(case lb l of None \<Rightarrow> Some s
           | Some sub_block \<Rightarrow>
               link_returning_blocks n lb ret sub_block
                 (if branch_type (s ! sub_block) = Return then link_to sub_block ret s else s)) = Some s'"
    show "keeps bs s'"
    proof (cases "lb l")
      case None
      with step k show ?thesis by simp
    next
      case (Some sub)
      let ?s1 = "if branch_type (s ! sub) = Return then link_to sub ret s else s"
      from step Some have "link_returning_blocks n lb ret sub ?s1 = Some s'"
        by simp
      then have "keeps ?s1 s'" by (rule Suc.IH)
      moreover have "keeps s ?s1"
        by (simp add: keeps_refl keeps_link_to)
      ultimately show ?thesis
        using k keeps_trans by blast
    qed
  qed
qed

lemma link_edges_props:
  assumes "link_edges lb bs = (bs1, callers)"
  shows "map static bs1 = map static bs"
    and "to_blocks (bs1 ! j) =
           (if j < length bs \<and> branch_type (bs ! j) \<noteq> Return
            then to_blocks (bs ! j) @ fallthrough bs j @ List.map_filter lb (branch_labels (bs ! j))
            else to_blocks (bs ! j))"
    and "callers = concat (map (call_pair bs) [0..<length bs])"
  using assms link_edges_prefix [of "length bs" bs lb]
  by (simp_all add: link_edges_def)

lemma link_blocks_props:
  assumes "link_blocks n lb cfg = Some cfg'"
  shows "map static (blocks cfg') = map static (blocks cfg)"
    and "cfg_instructions cfg' = cfg_instructions cfg"
    and "i < length (blocks cfg) \<Longrightarrow> branch_type (blocks cfg ! i) \<noteq> Return \<Longrightarrow>
           to_blocks (blocks cfg' ! i) =
             to_blocks (blocks cfg ! i) @ fallthrough (blocks cfg) i @
               List.map_filter lb (branch_labels (blocks cfg ! i))"
proof -
  obtain bs1 callers where e: "link_edges lb (blocks cfg) = (bs1, callers)"
    by (cases "link_edges lb (blocks cfg)")
  with assms obtain bs' where
    run: "fold_opt (\<lambda>(caller, ret) bs. link_returning_blocks n lb ret caller bs) callers bs1 = Some bs'"
    and cfg': "cfg' = cfg\<lparr>blocks := bs'\<rparr>"
    by (auto simp: link_blocks_def split: option.splits)
  have k: "keeps bs1 bs'"
  proof (rule fold_opt_invariant [OF run, where P = "keeps bs1"])
    show "keeps bs1 bs1" by (rule keeps_refl)
  next
    fix x s s'
    assume "keeps bs1 s"
      and "(case x of (caller, ret) \<Rightarrow> link_returning_blocks n lb ret caller) s = Some s'"
    then show "keeps bs1 s'"
      using link_returning_blocks_keeps [of n lb "snd x" "fst x" s s'] keeps_trans
      by (cases x) auto
  qed
  from link_edges_props(1) [OF e] k show "map static (blocks cfg') = map static (blocks cfg)"
    by (simp add: cfg' keeps_def)
  show "cfg_instructions cfg' = cfg_instructions cfg"
    by (simp add: cfg')
  assume i: "i < length (blocks cfg)" "branch_type (blocks cfg ! i) \<noteq> Return"
  have len: "length bs1 = length (blocks cfg)"
    using link_edges_props(1) [OF e] map_eq_imp_length_eq by fastforce
  have "branch_type (bs1 ! i) = branch_type (blocks cfg ! i)"
    using static_fields(4) [OF static_nth [OF link_edges_props(1) [OF e] i(1)]] .
  with k i len have "to_blocks (bs' ! i) = to_blocks (bs1 ! i)"
    by (simp add: keeps_def)
  with link_edges_props(2) [OF e, of i] i
  show "to_blocks (blocks cfg' ! i) =
             to_blocks (blocks cfg ! i) @ fallthrough (blocks cfg) i @
               List.map_filter lb (branch_labels (blocks cfg ! i))"
    by (simp add: cfg')
qed

lemma tiles_start_ge: "tiles rs seg lo hi \<Longrightarrow> r \<in> set rs \<Longrightarrow> lo \<le> fst (snd r) \<and> fst r = seg \<and> snd (snd r) \<le> hi"
proof (induction rs seg lo hi rule: tiles.induct)
  case (1 seg lo hi)
  then show ?case by simp
next
  case (2 s b e rs seg lo hi)
  then show ?case
    using tiles_le [of rs seg e hi] by fastforce
qed

lemma tiles_unique:
  "tiles rs seg lo hi \<Longrightarrow> lo \<le> j \<Longrightarrow> j < hi \<Longrightarrow>
     \<exists>!r. r \<in> set rs \<and> fst (snd r) \<le> j \<and> j < snd (snd r)"
proof (induction rs seg lo hi rule: tiles.induct)
  case (1 seg lo hi)
  then show ?case by simp
next
  case (2 s b e rs seg lo hi)
  then have t: "tiles rs seg e hi" and e: "lo < e" and b: "b = lo"
    by auto
  show ?case
  proof (cases "j < e")
    case True
    have "r = (s, b, e)" if "r \<in> set ((s, b, e) # rs)" "fst (snd r) \<le> j \<and> j < snd (snd r)" for r
      using that tiles_start_ge [OF t, of r] True by auto
    with True b "2.prems"(2) show ?thesis
      by (intro ex1I [of _ "(s, b, e)"]) auto
  next
    case False
    with "2.IH" t "2.prems" have "\<exists>!r. r \<in> set rs \<and> fst (snd r) \<le> j \<and> j < snd (snd r)"
      by auto
    with False show ?thesis
      by auto
  qed
qed

lemma tiles_last:
  "tiles rs seg lo hi \<Longrightarrow> rs \<noteq> [] \<Longrightarrow> fst (last rs) = seg \<and> snd (snd (last rs)) = hi"
  by (induction rs seg lo hi rule: tiles.induct) auto

lemma tiles_hd:
  "tiles rs seg lo hi \<Longrightarrow> rs \<noteq> [] \<Longrightarrow> fst (hd rs) = seg \<and> fst (snd (hd rs)) = lo"
  by (cases rs) auto

lemma create_basic_blocks_empty:
  "instructions seg = [] \<Longrightarrow> create_basic_blocks seg cl = Inr cl"
  by (simp add: create_basic_blocks_def)

lemma create_segments_empty:
  "\<forall>s \<in> set segs. instructions s = [] \<Longrightarrow> fold_err create_basic_blocks segs cl = Inr cl"
  by (induction segs) (simp_all add: create_basic_blocks_empty)

lemma create_segments_dom:
  assumes "fold_err create_basic_blocks segs (cfg, lb) = Inr (cfg', lb')"
  shows "lb' l = None \<longleftrightarrow>
           lb l = None \<and> \<not> (\<exists>seg \<in> set segs. instructions seg \<noteq> [] \<and> l \<in> set (labels seg))"
  using assms
proof (induction segs arbitrary: cfg lb)
  case Nil
  then show ?case by simp
next
  case (Cons seg segs)
  from Cons.prems obtain cfg1 lb1 where one: "create_basic_blocks seg (cfg, lb) = Inr (cfg1, lb1)"
    and rest: "fold_err create_basic_blocks segs (cfg1, lb1) = Inr (cfg', lb')"
    by (auto split: sum.splits)
  from create_basic_blocks_blocks [OF one]
  have "lb1 l = None \<longleftrightarrow> lb l = None \<and> \<not> (instructions seg \<noteq> [] \<and> l \<in> set (labels seg))"
    by (auto simp: set_labels_apply split: if_splits)
  with Cons.IH [OF rest] show ?case
    by auto
qed

lemma branch_of_throws: "branch_of inst is_last = Inl e \<Longrightarrow> branch_of inst True = Inl e"
  by (cases "opcode inst")
     (simp_all add: branch_of_def one_label_def tail_labels_def split: sum.splits if_splits)

lemma fold_err_no_throw:
  "(\<And>x s. x \<in> set xs \<Longrightarrow> f x s \<noteq> Inl e) \<Longrightarrow> fold_err f xs s \<noteq> Inl e"
  by (induction xs arbitrary: s) (auto split: sum.splits)

lemma create_all_blocks_no_throw:
  assumes "\<forall>seg \<in> set segs. \<forall>inst \<in> set (instructions seg). operands_ok inst"
  shows "create_all_blocks segs \<noteq> Inl e"
  unfolding create_all_blocks_def
proof (rule fold_err_no_throw)
  fix seg cl
  assume seg: "seg \<in> set segs"
  have "fold_err (bb_step seg) [0..<length (instructions seg)] s \<noteq> Inl e" for s
  proof (rule fold_err_no_throw)
    fix i st
    assume "i \<in> set [0..<length (instructions seg)]"
    with seg assms have "operands_ok (instructions seg ! i)"
      by auto
    then have "branch_of (instructions seg ! i) (i = length (instructions seg) - 1) \<noteq> Inl e"
      using branch_of_throws [of "instructions seg ! i" "i = length (instructions seg) - 1" e]
      by (auto simp: operands_ok_def)
    then show "bb_step seg i st \<noteq> Inl e"
      by (auto simp: bb_step_def Let_def split: sum.splits option.splits)
  qed
  then show "create_basic_blocks seg cl \<noteq> Inl e"
    by (auto simp: create_basic_blocks_def split: sum.splits)
qed

lemma call_pairs_fst:
  "p \<in> set (concat (map (call_pair bs) [0..<k])) \<Longrightarrow> Suc (fst p) < length bs \<and> snd p = Suc (fst p)"
  by (auto simp: call_pair_def split: if_splits)

lemma link_to_from_blocks:
  "from_blocks (link_to a b bs ! i) =
     (if i = b \<and> b < length bs then from_blocks (bs ! b) @ [a] else from_blocks (bs ! i))"
proof (cases "b < length bs")
  case True
  then show ?thesis
    by (cases "a < length bs"; cases "i = b"; cases "i = a")
       (auto simp: link_to_def Let_def list_update_beyond)
next
  case False
  then show ?thesis
    by (cases "a < length bs"; cases "i = a") (auto simp: link_to_def Let_def list_update_beyond)
qed

lemma mirrored_link_to:
  assumes m: "mirrored bs" and a: "a < length bs" and b: "b < length bs"
  shows "mirrored (link_to a b bs)"
proof -
  have t: "count_list (to_blocks (link_to a b bs ! x)) y =
           count_list (to_blocks (bs ! x)) y + (if x = a \<and> y = b then 1 else 0)" for x y
    using a by (simp add: link_to_to_blocks)
  have f: "count_list (from_blocks (link_to a b bs ! y)) x =
           count_list (from_blocks (bs ! y)) x + (if x = a \<and> y = b then 1 else 0)" for x y
    using b by (simp add: link_to_from_blocks)
  have ts: "set (to_blocks (link_to a b bs ! x)) \<subseteq> set (to_blocks (bs ! x)) \<union> {b}" for x
    by (auto simp: link_to_to_blocks)
  have fs: "set (from_blocks (link_to a b bs ! x)) \<subseteq> set (from_blocks (bs ! x)) \<union> {a}" for x
    by (auto simp: link_to_from_blocks)
  have c: "\<forall>x < length bs. \<forall>y < length bs.
        count_list (to_blocks (link_to a b bs ! x)) y = count_list (from_blocks (link_to a b bs ! y)) x"
  proof (intro allI impI)
    fix x y
    assume "x < length bs" "y < length bs"
    with m have "count_list (to_blocks (bs ! x)) y = count_list (from_blocks (bs ! y)) x"
      unfolding mirrored_def by blast
    then show "count_list (to_blocks (link_to a b bs ! x)) y =
               count_list (from_blocks (link_to a b bs ! y)) x"
      by (simp only: t f)
  qed
  have r: "\<forall>x < length bs. (\<forall>t \<in> set (to_blocks (link_to a b bs ! x)). t < length bs) \<and>
                        (\<forall>f \<in> set (from_blocks (link_to a b bs ! x)). f < length bs)"
  proof (intro allI impI conjI ballI)
    fix x t
    assume "x < length bs" "t \<in> set (to_blocks (link_to a b bs ! x))"
    with ts [of x] m b show "t < length bs"
      unfolding mirrored_def by blast
  next
    fix x f
    assume "x < length bs" "f \<in> set (from_blocks (link_to a b bs ! x))"
    with fs [of x] m a show "f < length bs"
      unfolding mirrored_def by blast
  qed
  show ?thesis
    unfolding mirrored_def link_to_length using c r by (rule conjI)
qed

lemma mirrored_link_labels:
  "mirrored bs \<Longrightarrow> i < length bs \<Longrightarrow> \<forall>l t. lb l = Some t \<longrightarrow> t < length bs \<Longrightarrow>
     mirrored (link_labels lb i ls bs)"
proof (induction ls arbitrary: bs)
  case Nil
  then show ?case by (simp add: link_labels_def)
next
  case (Cons l ls)
  have unf: "link_labels lb i (l # ls) bs =
      link_labels lb i ls (case lb l of None \<Rightarrow> bs | Some t \<Rightarrow> link_to i t bs)"
    by (simp add: link_labels_def)
  have "mirrored (case lb l of None \<Rightarrow> bs | Some t \<Rightarrow> link_to i t bs)"
    using Cons.prems by (cases "lb l") (simp_all add: mirrored_link_to)
  moreover have "length (case lb l of None \<Rightarrow> bs | Some t \<Rightarrow> link_to i t bs) = length bs"
    by (cases "lb l") simp_all
  ultimately show ?case
    unfolding unf using Cons.prems by (intro Cons.IH) simp_all
qed

lemma mirrored_link_step:
  assumes "mirrored bs" and "i < length bs" and "\<forall>l t. lb l = Some t \<longrightarrow> t < length bs"
  shows "mirrored (fst (link_step lb i (bs, cs)))"
proof -
  have plain: "mirrored (link_labels lb i (branch_labels (bs ! i)) bs)"
    using assms by (intro mirrored_link_labels) simp_all
  have next_block: "mirrored (link_labels lb i (branch_labels (bs ! i)) (link_to i (i + 1) bs))"
    if "i + 1 < length bs"
    using assms that by (intro mirrored_link_labels mirrored_link_to) simp_all
  show ?thesis
    using assms(1) plain next_block
    by (cases "branch_type (bs ! i)") (simp_all add: link_step_def Let_def)
qed

lemma mirrored_link_edges:
  assumes "mirrored bs" and "\<forall>l t. lb l = Some t \<longrightarrow> t < length bs"
  shows "mirrored (fst (link_edges lb bs))"
proof -
  have "k \<le> length bs \<Longrightarrow> mirrored (fst (fold (link_step lb) [0..<k] (bs, [])))" for k
  proof (induction k)
    case 0
    with assms(1) show ?case by simp
  next
    case (Suc k)
    obtain bs1 cs1 where f: "fold (link_step lb) [0..<k] (bs, []) = (bs1, cs1)"
      by (cases "fold (link_step lb) [0..<k] (bs, [])")
    with Suc have m: "mirrored bs1" by simp
    have len: "length bs1 = length bs"
      using link_edges_prefix [of k bs lb] Suc.prems f by simp
    show ?case
      using mirrored_link_step [OF m, of k lb cs1] Suc.prems assms(2) len
      by (simp add: f)
  qed
  then show ?thesis
    by (simp add: link_edges_def)
qed

lemma mirrored_link_returning_blocks:
  assumes lb: "\<forall>l t. lb l = Some t \<longrightarrow> t < L" and ret: "ret < L"
  shows "link_returning_blocks n lb ret block bs = Some bs' \<Longrightarrow> length bs = L \<Longrightarrow> mirrored bs \<Longrightarrow>
           mirrored bs'"
proof (induction n arbitrary: block bs bs')
  case 0
  then show ?case by simp
next
  case (Suc n)
  from Suc.prems(1) have run: "fold_opt
       (\<lambda>label bs.
          case lb label of
            None \<Rightarrow> Some bs
          | Some sub_block \<Rightarrow>
              link_returning_blocks n lb ret sub_block
                (if branch_type (bs ! sub_block) = Return then link_to sub_block ret bs else bs))
       (branch_labels (bs ! block)) bs = Some bs'"
    by simp
  have "length bs' = L \<and> mirrored bs'"
  proof (rule fold_opt_invariant [OF run, where P = "\<lambda>s. length s = L \<and> mirrored s"])
    show "length bs = L \<and> mirrored bs"
      using Suc.prems by simp
  next
    fix l s s'
    assume inv: "length s = L \<and> mirrored s"
      and step: "(case lb l of None \<Rightarrow> Some s
           | Some sub_block \<Rightarrow>
               link_returning_blocks n lb ret sub_block
                 (if branch_type (s ! sub_block) = Return then link_to sub_block ret s else s)) = Some s'"
    show "length s' = L \<and> mirrored s'"
    proof (cases "lb l")
      case None
      with step inv show ?thesis by simp
    next
      case (Some sub)
      let ?s1 = "if branch_type (s ! sub) = Return then link_to sub ret s else s"
      from step Some have r: "link_returning_blocks n lb ret sub ?s1 = Some s'"
        by simp
      from Some lb have "sub < L" by simp
      with inv ret have s1: "length ?s1 = L" "mirrored ?s1"
        by (simp_all add: mirrored_link_to)
      from link_returning_blocks_keeps [OF r] s1(1) have "length s' = L"
        using map_eq_imp_length_eq [of static s' static ?s1] by (simp add: keeps_def)
      with Suc.IH [OF r s1] show ?thesis by simp
    qed
  qed
  then show ?case by simp
qed

lemma fold_opt_invariant_mem:
  assumes "fold_opt f xs s = Some s'" and "P s"
    and "\<And>x s s'. x \<in> set xs \<Longrightarrow> P s \<Longrightarrow> f x s = Some s' \<Longrightarrow> P s'"
  shows "P s'"
  using assms
proof (induction xs arbitrary: s)
  case Nil
  then show ?case by simp
next
  case (Cons x xs)
  from Cons.prems(1) obtain s1 where s1: "f x s = Some s1" and rest: "fold_opt f xs s1 = Some s'"
    by (auto split: option.splits)
  have "P s1"
    using Cons.prems(3) [of x s s1] Cons.prems(2) s1 by simp
  show ?case
    by (rule Cons.IH [OF rest \<open>P s1\<close>]) (use Cons.prems(3) in auto)
qed

lemma create_cfg_mirrored:
  assumes c: "create_all_blocks segments = Inr (cfg0, lb)"
    and l: "link_blocks n lb cfg0 = Some cfg"
  shows "mirrored (blocks cfg)"
proof -
  let ?L = "length (blocks cfg0)"
  have lbr: "\<forall>l t. lb l = Some t \<longrightarrow> t < ?L"
    using create_all_blocks_props(3) [OF c] by (simp add: labels_ok_def)
  have m0: "mirrored (blocks cfg0)"
    using create_all_blocks_props(2) [OF c] by (auto simp: mirrored_def unlinked_def)
  obtain bs1 callers where e: "link_edges lb (blocks cfg0) = (bs1, callers)"
    by (cases "link_edges lb (blocks cfg0)")
  with l obtain bs' where
    run: "fold_opt (\<lambda>(caller, ret) bs. link_returning_blocks n lb ret caller bs) callers bs1 = Some bs'"
    and cfg': "cfg = cfg0\<lparr>blocks := bs'\<rparr>"
    by (auto simp: link_blocks_def split: option.splits)
  have m1: "mirrored bs1"
    using mirrored_link_edges [OF m0 lbr] e by simp
  have len1: "length bs1 = ?L"
    using link_edges_props(1) [OF e] map_eq_imp_length_eq by blast
  have "length bs' = ?L \<and> mirrored bs'"
  proof (rule fold_opt_invariant_mem [OF run, where P = "\<lambda>s. length s = ?L \<and> mirrored s"])
    show "length bs1 = ?L \<and> mirrored bs1"
      using m1 len1 by simp
  next
    fix x s s'
    assume x: "x \<in> set callers" and inv: "length s = ?L \<and> mirrored s"
      and step: "(case x of (caller, ret) \<Rightarrow> link_returning_blocks n lb ret caller) s = Some s'"
    from step have r: "link_returning_blocks n lb (snd x) (fst x) s = Some s'"
      by (cases x) simp
    from x link_edges_props(3) [OF e] call_pairs_fst [of x "blocks cfg0" ?L]
    have ret: "snd x < ?L" by simp
    from link_returning_blocks_keeps [OF r] inv have "length s' = ?L"
      using map_eq_imp_length_eq [of static s' static s] by (simp add: keeps_def)
    with mirrored_link_returning_blocks [OF lbr ret r] inv show "length s' = ?L \<and> mirrored s'"
      by simp
  qed
  then show ?thesis by (simp add: cfg')
qed

lemma create_cfg_split:
  assumes "create_control_flow_graph n segments = Some (Inr cfg)"
  obtains cfg0 lb where "create_all_blocks segments = Inr (cfg0, lb)"
    and "link_blocks n lb cfg0 = Some cfg"
  using assms
  by (auto simp: create_control_flow_graph_def split: sum.splits option.splits)

lemma block_range_static:
  "map block_range bs = map (\<lambda>s. (fst s, fst (snd s), fst (snd (snd s)))) (map static bs)"
  by (simp add: block_range_def static_def)

lemma block_range_of_static:
  "map static bs' = map static bs \<Longrightarrow> map block_range bs' = map block_range bs"
  by (simp only: block_range_static)

lemma map_ok_static:
  assumes "map_ok cfg" and "map static (blocks cfg') = map static (blocks cfg)"
    and "cfg_instructions cfg' = cfg_instructions cfg"
  shows "map_ok cfg'"
proof -
  have len: "length (blocks cfg') = length (blocks cfg)"
    using assms(2) map_eq_imp_length_eq by blast
  have "segment (blocks cfg' ! b) = segment (blocks cfg ! b) \<and>
        start (blocks cfg' ! b) = start (blocks cfg ! b) \<and>
        end_idx (blocks cfg' ! b) = end_idx (blocks cfg ! b)" if "b < length (blocks cfg)" for b
    using static_fields [OF static_nth [OF assms(2) that]] by simp
  with assms(1,3) len show ?thesis
    by (simp add: map_ok_def)
qed

lemma edge_linking_core:
  assumes c: "create_all_blocks segments = Inr (cfg0, lb)"
    and l: "link_blocks n lb cfg0 = Some cfg"
  shows "i < length (blocks cfg) \<Longrightarrow> branch_type (blocks cfg ! i) \<noteq> Return \<Longrightarrow>
           to_blocks (blocks cfg ! i) =
             fallthrough (blocks cfg) i @ List.map_filter lb (branch_labels (blocks cfg ! i))"
    and "i < length (blocks cfg) \<Longrightarrow>
           set (call_pair (blocks cfg) i) \<subseteq> set (snd (link_edges lb (blocks cfg0)))"
    and "p \<in> set (snd (link_edges lb (blocks cfg0))) \<Longrightarrow>
           Suc (fst p) < length (blocks cfg) \<and> snd p = Suc (fst p)"
proof -
  note st = link_blocks_props(1) [OF l]
  have len: "length (blocks cfg) = length (blocks cfg0)"
    using st map_eq_imp_length_eq by blast
  obtain bs1 cs where e: "link_edges lb (blocks cfg0) = (bs1, cs)"
    by (cases "link_edges lb (blocks cfg0)")
  note cs = link_edges_props(3) [OF e]
  show "Suc (fst p) < length (blocks cfg) \<and> snd p = Suc (fst p)"
    if "p \<in> set (snd (link_edges lb (blocks cfg0)))"
    using that call_pairs_fst [of p "blocks cfg0" "length (blocks cfg0)"] cs e len by simp
  assume i: "i < length (blocks cfg)"
  then have i0: "i < length (blocks cfg0)"
    using len by simp
  have f: "branch_type (blocks cfg ! i) = branch_type (blocks cfg0 ! i)"
    "branch_labels (blocks cfg ! i) = branch_labels (blocks cfg0 ! i)"
    using static_fields [OF static_nth [OF st i0]] by simp_all
  show "set (call_pair (blocks cfg) i) \<subseteq> set (snd (link_edges lb (blocks cfg0)))"
    using call_pair_static [OF st i0] cs e i0 by auto
  assume "branch_type (blocks cfg ! i) \<noteq> Return"
  moreover have "to_blocks (blocks cfg0 ! i) = []"
    using create_all_blocks_props(2) [OF c] i0 by (simp add: unlinked_def)
  ultimately show "to_blocks (blocks cfg ! i) =
             fallthrough (blocks cfg) i @ List.map_filter lb (branch_labels (blocks cfg ! i))"
    using link_blocks_props(3) [OF l i0] f fallthrough_static [OF st i0] by simp
qed

text \<open>
  C6. In a graph built from a segment list, the index ranges of the blocks, in the order
  of \<open>cfg.blocks\<close>, split into one run per segment, and the run of a segment tiles its
  instruction list: each range lies in that segment, starts where the one before it ends,
  is not empty, the first starts at 0 and the last ends at the length. So every
  instruction index of a segment lies in exactly one of its ranges. When the instructions
  are distinct objects, \<open>cfg.instructions\<close> maps each instruction of a block's range to
  that block, so each instruction of each segment is mapped to the block of its segment
  whose range holds its index.
\<close>

theorem block_partition:
  assumes "create_control_flow_graph n segments = Some (Inr cfg)"
  shows "(\<exists>rss. map block_range (blocks cfg) = concat rss \<and>
            list_all2 (\<lambda>rs seg. tiles rs seg 0 (length (instructions seg))) rss segments \<and>
            (\<forall>k < length segments. \<forall>j < length (instructions (segments ! k)).
               \<exists>!r. r \<in> set (rss ! k) \<and> fst (snd r) \<le> j \<and> j < snd (snd r))) \<and>
         (distinct (map iref (concat (map instructions segments))) \<longrightarrow>
            (\<forall>b < length (blocks cfg). \<forall>j. start (blocks cfg ! b) \<le> j \<and> j < end_idx (blocks cfg ! b) \<longrightarrow>
               cfg_instructions cfg (iref (instructions (segment (blocks cfg ! b)) ! j)) = Some b) \<and>
            (\<forall>k < length segments. \<forall>j < length (instructions (segments ! k)).
               \<exists>b < length (blocks cfg).
                 cfg_instructions cfg (iref (instructions (segments ! k) ! j)) = Some b \<and>
                 segment (blocks cfg ! b) = segments ! k \<and>
                 start (blocks cfg ! b) \<le> j \<and> j < end_idx (blocks cfg ! b)))"
proof -
  from assms obtain cfg0 lb where c: "create_all_blocks segments = Inr (cfg0, lb)"
    and l: "link_blocks n lb cfg0 = Some cfg"
    by (rule create_cfg_split)
  note st = link_blocks_props(1,2) [OF l]
  from create_all_blocks_props(1) [OF c] obtain rss where
    rss: "map block_range (blocks cfg0) = concat rss"
      "list_all2 (\<lambda>rs seg. tiles rs seg 0 (length (instructions seg))) rss segments"
    by auto
  have u: "\<exists>!r. r \<in> set (rss ! k) \<and> fst (snd r) \<le> j \<and> j < snd (snd r)"
    if "k < length segments" "j < length (instructions (segments ! k))" for k j
  proof -
    from rss(2) that(1) have "tiles (rss ! k) (segments ! k) 0 (length (instructions (segments ! k)))"
      by (simp add: list_all2_conv_all_nth)
    from tiles_unique [OF this _ that(2)] show ?thesis by simp
  qed
  have m: "map_ok cfg" if "distinct (map iref (concat (map instructions segments)))"
    using map_ok_static [OF create_all_blocks_props(4) [OF c that] st] .
  have rng: "map block_range (blocks cfg) = concat rss"
    using rss(1) block_range_of_static [OF st(1)] by simp
  have e: "\<exists>b < length (blocks cfg).
             cfg_instructions cfg (iref (instructions (segments ! k) ! j)) = Some b \<and>
             segment (blocks cfg ! b) = segments ! k \<and>
             start (blocks cfg ! b) \<le> j \<and> j < end_idx (blocks cfg ! b)"
    if d: "distinct (map iref (concat (map instructions segments)))"
      and k: "k < length segments" and j: "j < length (instructions (segments ! k))" for k j
  proof -
    from rss(2) k have t: "tiles (rss ! k) (segments ! k) 0 (length (instructions (segments ! k)))"
      and kr: "k < length rss"
      by (simp_all add: list_all2_conv_all_nth)
    from u [OF k j] obtain r where r: "r \<in> set (rss ! k)" "fst (snd r) \<le> j" "j < snd (snd r)"
      by blast
    from tiles_start_ge [OF t r(1)] have sg: "fst r = segments ! k"
      by simp
    from r(1) kr have "r \<in> set (concat rss)"
      by (auto intro: nth_mem)
    with rng have "r \<in> set (map block_range (blocks cfg))"
      by simp
    then obtain b where b: "b < length (blocks cfg)" "block_range (blocks cfg ! b) = r"
      by (auto simp: in_set_conv_nth)
    from b(2) sg r(2,3) have f: "segment (blocks cfg ! b) = segments ! k"
      "start (blocks cfg ! b) \<le> j" "j < end_idx (blocks cfg ! b)"
      by (auto simp: block_range_def)
    with m [OF d] b(1) have "cfg_instructions cfg (iref (instructions (segments ! k) ! j)) = Some b"
      unfolding map_ok_def by metis
    with b(1) f show ?thesis by blast
  qed
  have first: "\<exists>rss. map block_range (blocks cfg) = concat rss \<and>
            list_all2 (\<lambda>rs seg. tiles rs seg 0 (length (instructions seg))) rss segments \<and>
            (\<forall>k < length segments. \<forall>j < length (instructions (segments ! k)).
               \<exists>!r. r \<in> set (rss ! k) \<and> fst (snd r) \<le> j \<and> j < snd (snd r))"
    using rng rss(2) u by (intro exI [of _ rss]) simp
  have second: "\<forall>b < length (blocks cfg). \<forall>j. start (blocks cfg ! b) \<le> j \<and> j < end_idx (blocks cfg ! b) \<longrightarrow>
               cfg_instructions cfg (iref (instructions (segment (blocks cfg ! b)) ! j)) = Some b"
    if "distinct (map iref (concat (map instructions segments)))"
    using m [OF that] by (simp add: map_ok_def)
  from first second e show ?thesis
    by blast
qed

text \<open>
  C5. In the graph returned by \<open>create_control_flow_graph\<close>, with \<open>label_blocks\<close> the
  label map that block splitting built: the successors of a \<open>None\<close> or
  \<open>ConditionalJump\<close> block are the next block of \<open>cfg.blocks\<close>, when there is one,
  followed by the blocks of its resolvable branch labels, in order; the successors of a
  \<open>Jump\<close> block and of a \<open>Call\<close> block are the blocks of their resolvable branch labels
  and nothing else; the pair of a \<open>Call\<close> block and the block after it is among the pairs
  that \<open>link_blocks\<close> collects for return linking; and a label resolves to the first block
  of a segment that carries it. Every edge is recorded on both sides: a block is in the
  \<open>to\<close> array of another as often as that one is in its \<open>from\<close> array, and every
  reference is a block of the graph.
\<close>

theorem edge_linking:
  assumes "create_all_blocks segments = Inr (cfg0, label_blocks)"
    and "create_control_flow_graph n segments = Some (Inr cfg)"
    and "i < length (blocks cfg)"
  shows "(branch_type (blocks cfg ! i) \<in> {None_branch, ConditionalJump} \<longrightarrow>
            to_blocks (blocks cfg ! i) =
              (if i + 1 < length (blocks cfg) then [i + 1] else []) @
              List.map_filter label_blocks (branch_labels (blocks cfg ! i))) \<and>
         (branch_type (blocks cfg ! i) = Jump \<longrightarrow>
            to_blocks (blocks cfg ! i) =
              List.map_filter label_blocks (branch_labels (blocks cfg ! i))) \<and>
         (branch_type (blocks cfg ! i) = Call \<longrightarrow>
            to_blocks (blocks cfg ! i) =
              List.map_filter label_blocks (branch_labels (blocks cfg ! i)) \<and>
            (i + 1 < length (blocks cfg) \<longrightarrow>
               (i, i + 1) \<in> set (snd (link_edges label_blocks (blocks cfg0))))) \<and>
         (\<forall>l t. label_blocks l = Some t \<longrightarrow>
            t < length (blocks cfg) \<and> start (blocks cfg ! t) = 0 \<and>
            l \<in> set (labels (segment (blocks cfg ! t)))) \<and>
         mirrored (blocks cfg)"
proof -
  from assms(1,2) have l: "link_blocks n label_blocks cfg0 = Some cfg"
    by (auto simp: create_control_flow_graph_def split: option.splits)
  note st = link_blocks_props(1) [OF l]
  have len: "length (blocks cfg) = length (blocks cfg0)"
    using st map_eq_imp_length_eq by blast
  have f: "segment (blocks cfg ! b) = segment (blocks cfg0 ! b)"
    "start (blocks cfg ! b) = start (blocks cfg0 ! b)"
    "branch_type (blocks cfg ! b) = branch_type (blocks cfg0 ! b)"
    "branch_labels (blocks cfg ! b) = branch_labels (blocks cfg0 ! b)"
    if "b < length (blocks cfg0)" for b
    using static_fields [OF static_nth [OF st that]] by simp_all
  have i: "i < length (blocks cfg0)"
    using assms(3) len by simp
  have "to_blocks (blocks cfg0 ! i) = []"
    using create_all_blocks_props(2) [OF assms(1)] i by (simp add: unlinked_def)
  with link_blocks_props(3) [OF l i] f [OF i]
  have to: "to_blocks (blocks cfg ! i) =
      fallthrough (blocks cfg0) i @ List.map_filter label_blocks (branch_labels (blocks cfg ! i))"
    if "branch_type (blocks cfg ! i) \<noteq> Return"
    using that by simp
  have pair: "(i, i + 1) \<in> set (snd (link_edges label_blocks (blocks cfg0)))"
    if "branch_type (blocks cfg ! i) = Call" "i + 1 < length (blocks cfg)"
  proof -
    obtain bs1 cs where e: "link_edges label_blocks (blocks cfg0) = (bs1, cs)"
      by (cases "link_edges label_blocks (blocks cfg0)")
    have "(i, i + 1) \<in> set (call_pair (blocks cfg0) i)"
      using that f [OF i] len by (simp add: call_pair_def)
    with link_edges_props(3) [OF e] i e show ?thesis
      by auto
  qed
  have lab: "t < length (blocks cfg) \<and> start (blocks cfg ! t) = 0 \<and>
             l \<in> set (labels (segment (blocks cfg ! t)))" if "label_blocks l = Some t" for l t
    using create_all_blocks_props(3) [OF assms(1)] that f [of t] len
    by (auto simp: labels_ok_def)
  from to pair lab f [OF i] len create_cfg_mirrored [OF assms(1) l] show ?thesis
    by (auto simp: fallthrough_def)
qed

text \<open>
  C9. Let \<open>s1\<close> and \<open>s2\<close> be segments with instructions that follow each other in the
  input list (segments without instructions, which get no block, may stand between them),
  and let \<open>i\<close> be the index of the last block made for the segments up to \<open>s1\<close>. Then
  block \<open>i\<close> is the last block of \<open>s1\<close> and block \<open>i + 1\<close> is the first block of \<open>s2\<close>;
  if block \<open>i\<close> is a \<open>None\<close> or \<open>ConditionalJump\<close> block its first successor is block
  \<open>i + 1\<close>, and if it is a \<open>Call\<close> block the pair \<open>(i, i + 1)\<close> is collected for return
  linking. The last block of the whole graph has no successors but the blocks of its
  resolvable labels, and no collected pair starts at it.
\<close>

theorem fallthrough_across_segments:
  assumes a: "create_all_blocks (pre @ [s1]) = Inr (cfgA, lbA)"
    and c: "create_all_blocks (pre @ s1 # mid @ s2 # post) = Inr (cfg0, label_blocks)"
    and g: "create_control_flow_graph n (pre @ s1 # mid @ s2 # post) = Some (Inr cfg)"
    and s1: "instructions s1 \<noteq> []" and s2: "instructions s2 \<noteq> []"
    and mid: "\<forall>s \<in> set mid. instructions s = []"
    and i: "i = length (blocks cfgA) - 1"
    and z: "z = length (blocks cfg) - 1"
  shows "Suc i < length (blocks cfg) \<and>
         segment (blocks cfg ! i) = s1 \<and> end_idx (blocks cfg ! i) = length (instructions s1) \<and>
         segment (blocks cfg ! Suc i) = s2 \<and> start (blocks cfg ! Suc i) = 0 \<and>
         (branch_type (blocks cfg ! i) \<in> {None_branch, ConditionalJump} \<longrightarrow>
            to_blocks (blocks cfg ! i) =
              Suc i # List.map_filter label_blocks (branch_labels (blocks cfg ! i))) \<and>
         (branch_type (blocks cfg ! i) = Call \<longrightarrow>
            (i, Suc i) \<in> set (snd (link_edges label_blocks (blocks cfg0)))) \<and>
         (branch_type (blocks cfg ! z) \<noteq> Return \<longrightarrow>
            to_blocks (blocks cfg ! z) =
              List.map_filter label_blocks (branch_labels (blocks cfg ! z))) \<and>
         (\<forall>p \<in> set (snd (link_edges label_blocks (blocks cfg0))). fst p \<noteq> z)"
proof -
  let ?segs = "pre @ s1 # mid @ s2 # post"
  from c g have l: "link_blocks n label_blocks cfg0 = Some cfg"
    by (auto simp: create_control_flow_graph_def split: option.splits)
  note st = link_blocks_props(1) [OF l]
  have len: "length (blocks cfg) = length (blocks cfg0)"
    using st map_eq_imp_length_eq by blast
  have rng: "map block_range (blocks cfg) = map block_range (blocks cfg0)"
    using st by (rule block_range_of_static)
  \<comment> \<open>the blocks of the segments up to \<open>s1\<close>\<close>
  from a obtain cfgP lbP where
    p: "fold_err create_basic_blocks pre (empty_cfg, Map.empty) = Inr (cfgP, lbP)"
    and one: "create_basic_blocks s1 (cfgP, lbP) = Inr (cfgA, lbA)"
    by (auto simp: create_all_blocks_def fold_err_append split: sum.splits)
  from create_basic_blocks_blocks [OF one] s1 obtain new1 where new1:
    "blocks cfgA = blocks cfgP @ new1" "new1 \<noteq> []"
    "tiles (map block_range new1) s1 0 (length (instructions s1))"
    by auto
  \<comment> \<open>the rest of the run starts from the state after \<open>s1\<close>\<close>
  have "?segs = (pre @ [s1]) @ mid @ s2 # post"
    by simp
  with c a have "fold_err create_basic_blocks (mid @ s2 # post) (cfgA, lbA) = Inr (cfg0, label_blocks)"
    by (simp only: create_all_blocks_def fold_err_append [of _ "pre @ [s1]"]) simp
  with create_segments_empty [OF mid, of "(cfgA, lbA)"]
  have "fold_err create_basic_blocks (s2 # post) (cfgA, lbA) = Inr (cfg0, label_blocks)"
    by (simp add: fold_err_append)
  then obtain cfgB lbB where two: "create_basic_blocks s2 (cfgA, lbA) = Inr (cfgB, lbB)"
    and rest: "fold_err create_basic_blocks post (cfgB, lbB) = Inr (cfg0, label_blocks)"
    by (auto split: sum.splits)
  from create_basic_blocks_blocks [OF two] s2 obtain new2 where new2:
    "blocks cfgB = blocks cfgA @ new2" "new2 \<noteq> []"
    "tiles (map block_range new2) s2 0 (length (instructions s2))"
    by auto
  from create_segments_blocks [OF rest] obtain rss where
    "map block_range (blocks cfg0) = map block_range (blocks cfgB) @ concat rss"
    by auto
  with rng new1(1) new2(1) have all: "map block_range (blocks cfg) =
      map block_range (blocks cfgP) @ map block_range new1 @ map block_range new2 @ concat rss"
    by simp
  have i': "i = length (blocks cfgP) + length new1 - 1" and ilt: "length (blocks cfgP) \<le> i"
    using i new1(1,2) by (cases new1; simp)+
  have lens: "length (blocks cfg) = length (blocks cfgP) + length new1 + length new2 + length (concat rss)"
    using arg_cong [OF all, of length] by simp
  have suc: "Suc i < length (blocks cfg)"
    using lens i' new1(2) new2(2) by (cases new1; cases new2) auto
  have "map block_range (blocks cfg) ! i = last (map block_range new1)"
    using i' ilt new1(2) by (simp add: all nth_append last_conv_nth)
  moreover have "map block_range (blocks cfg) ! Suc i = hd (map block_range new2)"
    using i' new1(2) new2(2) by (cases new1; cases new2) (auto simp: all nth_append hd_conv_nth)
  ultimately have r: "block_range (blocks cfg ! i) = last (map block_range new1)"
    "block_range (blocks cfg ! Suc i) = hd (map block_range new2)"
    using suc by auto
  have pos: "segment (blocks cfg ! i) = s1 \<and> end_idx (blocks cfg ! i) = length (instructions s1) \<and>
         segment (blocks cfg ! Suc i) = s2 \<and> start (blocks cfg ! Suc i) = 0"
  proof -
    have "fst (block_range (blocks cfg ! i)) = s1 \<and>
          snd (snd (block_range (blocks cfg ! i))) = length (instructions s1) \<and>
          fst (block_range (blocks cfg ! Suc i)) = s2 \<and>
          fst (snd (block_range (blocks cfg ! Suc i))) = 0"
      using tiles_last [OF new1(3)] tiles_hd [OF new2(3)] new1(2) new2(2)
      by (simp add: r)
    then show ?thesis
      by (simp add: block_range_def)
  qed
  note e = edge_linking_core [OF c l]
  have ft: "to_blocks (blocks cfg ! i) =
              Suc i # List.map_filter label_blocks (branch_labels (blocks cfg ! i))"
    if "branch_type (blocks cfg ! i) \<in> {None_branch, ConditionalJump}"
    using e(1) [of i] that suc by (auto simp: fallthrough_def)
  have pr: "(i, Suc i) \<in> set (snd (link_edges label_blocks (blocks cfg0)))"
    if "branch_type (blocks cfg ! i) = Call"
    using e(2) [of i] that suc by (simp add: call_pair_def)
  have zlt: "z < length (blocks cfg)"
    using z suc by simp
  have lastb: "to_blocks (blocks cfg ! z) = List.map_filter label_blocks (branch_labels (blocks cfg ! z))"
    if "branch_type (blocks cfg ! z) \<noteq> Return"
    using e(1) [of z] that zlt z by (auto simp: fallthrough_def)
  have nopair: "fst p \<noteq> z" if "p \<in> set (snd (link_edges label_blocks (blocks cfg0)))" for p
    using e(3) [OF that] z by auto
  from suc pos ft pr lastb nopair show ?thesis
    by blast
qed

lemmas blk_eval =
  create_control_flow_graph_def create_all_blocks_def create_basic_blocks_def bb_step_def
  branch_of_def one_label_def tail_labels_def arg_at_def empty_cfg_def set_instructions_def
  set_labels_def new_instruction_def upt_rec numeral_eq_Suc

lemmas lnk_eval =
  link_blocks_def link_to_def link_step_def link_labels_def link_edges_def upt_rec numeral_eq_Suc

theorem block_partition_witness:
  "\<exists>cfg. create_control_flow_graph 2 linking_example = Some (Inr cfg) \<and>
     distinct (map iref (concat (map instructions linking_example))) \<and>
     (\<exists>rss. map block_range (blocks cfg) = concat rss \<and>
        list_all2 (\<lambda>rs seg. tiles rs seg 0 (length (instructions seg))) rss linking_example \<and>
        (\<exists>!r. r \<in> set (rss ! 0) \<and> fst (snd r) \<le> 1 \<and> 1 < snd (snd r))) \<and>
     cfg_instructions cfg 2 = Some 1"
proof -
  have "\<exists>cfg. create_control_flow_graph 2 linking_example = Some (Inr cfg) \<and>
          length (blocks cfg) = 5 \<and> start (blocks cfg ! 1) = 2 \<and> end_idx (blocks cfg ! 1) = 3 \<and>
          iref (instructions (segment (blocks cfg ! 1)) ! 2) = 2"
    by (simp add: linking_example_def blk_eval) (simp add: lnk_eval)
  then obtain cfg where h: "create_control_flow_graph 2 linking_example = Some (Inr cfg)"
    and f: "length (blocks cfg) = 5" "start (blocks cfg ! 1) = 2" "end_idx (blocks cfg ! 1) = 3"
      "iref (instructions (segment (blocks cfg ! 1)) ! 2) = 2"
    by blast
  have d: "distinct (map iref (concat (map instructions linking_example)))"
    by (simp add: linking_example_def new_instruction_def)
  from block_partition [OF h] d obtain rss where
    r: "map block_range (blocks cfg) = concat rss"
      "list_all2 (\<lambda>rs seg. tiles rs seg 0 (length (instructions seg))) rss linking_example"
      "\<forall>k < length linking_example. \<forall>j < length (instructions (linking_example ! k)).
         \<exists>!r. r \<in> set (rss ! k) \<and> fst (snd r) \<le> j \<and> j < snd (snd r)"
    and m: "\<forall>b < length (blocks cfg). \<forall>j. start (blocks cfg ! b) \<le> j \<and> j < end_idx (blocks cfg ! b) \<longrightarrow>
               cfg_instructions cfg (iref (instructions (segment (blocks cfg ! b)) ! j)) = Some b"
    by (elim conjE exE impE) simp_all
  from r(3) have "\<exists>!r. r \<in> set (rss ! 0) \<and> fst (snd r) \<le> 1 \<and> 1 < snd (snd r)"
    by (simp add: linking_example_def)
  moreover from m [rule_format, of 1 2] f have "cfg_instructions cfg 2 = Some 1"
    by simp
  ultimately show ?thesis
    using h d r(1,2) by blast
qed

theorem edge_linking_witness:
  "\<exists>cfg0 lb cfg.
     create_all_blocks linking_example = Inr (cfg0, lb) \<and>
     create_control_flow_graph 2 linking_example = Some (Inr cfg) \<and>
     to_blocks (blocks cfg ! 0) = [1, 2] \<and> to_blocks (blocks cfg ! 1) = [4] \<and>
     (1, 2) \<in> set (snd (link_edges lb (blocks cfg0))) \<and>
     to_blocks (blocks cfg ! 2) = [3] \<and> to_blocks (blocks cfg ! 3) = [] \<and>
     lb 3 = Some 4 \<and> start (blocks cfg ! 4) = 0 \<and> 3 \<in> set (labels (segment (blocks cfg ! 4))) \<and>
     count_list (from_blocks (blocks cfg ! 2)) 0 = 1"
proof -
  have "\<exists>cfg0 lb cfg.
     create_all_blocks linking_example = Inr (cfg0, lb) \<and>
     create_control_flow_graph 2 linking_example = Some (Inr cfg) \<and>
     length (blocks cfg) = 5 \<and>
     branch_type (blocks cfg ! 0) = ConditionalJump \<and> branch_labels (blocks cfg ! 0) = [1] \<and>
     branch_type (blocks cfg ! 1) = Call \<and> branch_labels (blocks cfg ! 1) = [3] \<and>
     branch_type (blocks cfg ! 2) = None_branch \<and> branch_labels (blocks cfg ! 2) = [] \<and>
     branch_type (blocks cfg ! 3) = Jump \<and> branch_labels (blocks cfg ! 3) = [7] \<and>
     lb 1 = Some 2 \<and> lb 3 = Some 4 \<and> lb 7 = None"
    by (simp add: linking_example_def blk_eval) (simp add: lnk_eval)
  then obtain cfg0 lb cfg where c: "create_all_blocks linking_example = Inr (cfg0, lb)"
    and g: "create_control_flow_graph 2 linking_example = Some (Inr cfg)"
    and f: "length (blocks cfg) = 5"
      "branch_type (blocks cfg ! 0) = ConditionalJump" "branch_labels (blocks cfg ! 0) = [1]"
      "branch_type (blocks cfg ! 1) = Call" "branch_labels (blocks cfg ! 1) = [3]"
      "branch_type (blocks cfg ! 2) = None_branch" "branch_labels (blocks cfg ! 2) = []"
      "branch_type (blocks cfg ! 3) = Jump" "branch_labels (blocks cfg ! 3) = [7]"
      "lb 1 = Some 2" "lb 3 = Some 4" "lb 7 = None"
    by blast
  from edge_linking [OF c g, of 0] f have "to_blocks (blocks cfg ! 0) = [1, 2]"
    by simp
  moreover from edge_linking [OF c g, of 1] f
  have "to_blocks (blocks cfg ! 1) = [4] \<and> (1, 2) \<in> set (snd (link_edges lb (blocks cfg0)))"
    by (simp add: numeral_2_eq_2)
  moreover from edge_linking [OF c g, of 2] f have "to_blocks (blocks cfg ! 2) = [3]"
    by simp
  moreover from edge_linking [OF c g, of 3] f have "to_blocks (blocks cfg ! 3) = []"
    by simp
  moreover from edge_linking [OF c g, of 0] f
  have "start (blocks cfg ! 4) = 0 \<and> 3 \<in> set (labels (segment (blocks cfg ! 4)))"
    by simp
  moreover have "count_list (from_blocks (blocks cfg ! 2)) 0 = 1"
  proof -
    from edge_linking [OF c g, of 0] f have t0: "to_blocks (blocks cfg ! 0) = [1, 2]"
      and m: "mirrored (blocks cfg)"
      by simp_all
    from m have "\<forall>a < length (blocks cfg). \<forall>b < length (blocks cfg).
        count_list (to_blocks (blocks cfg ! a)) b = count_list (from_blocks (blocks cfg ! b)) a"
      unfolding mirrored_def by (rule conjunct1)
    from this [rule_format, of 0 2] f(1) t0 show ?thesis
      by simp
  qed
  ultimately show ?thesis
    using c g f by blast
qed

theorem fallthrough_across_segments_witness:
  "(\<exists>cfg0 lb cfg.
      create_all_blocks linking_example = Inr (cfg0, lb) \<and>
      create_control_flow_graph 2 linking_example = Some (Inr cfg) \<and>
      segment (blocks cfg ! 1) = linking_example ! 0 \<and> end_idx (blocks cfg ! 1) = 3 \<and>
      segment (blocks cfg ! 2) = linking_example ! 1 \<and> start (blocks cfg ! 2) = 0 \<and>
      branch_type (blocks cfg ! 1) = Call \<and>
      (1, 2) \<in> set (snd (link_edges lb (blocks cfg0)))) \<and>
   (\<exists>cfg0 lb cfg.
      create_all_blocks last_call_example = Inr (cfg0, lb) \<and>
      create_control_flow_graph 0 last_call_example = Some (Inr cfg) \<and>
      length (blocks cfg) = 2 \<and>
      segment (blocks cfg ! 0) = last_call_example ! 0 \<and>
      segment (blocks cfg ! 1) = last_call_example ! 2 \<and>
      branch_type (blocks cfg ! 0) = None_branch \<and> to_blocks (blocks cfg ! 0) = [1] \<and>
      branch_type (blocks cfg ! 1) = Call \<and> to_blocks (blocks cfg ! 1) = [1] \<and>
      \<not> (\<exists>p \<in> set (snd (link_edges lb (blocks cfg0))). fst p = 1))"
proof -
  let ?s0 = "\<lparr>labels = [0], instructions =
         [new_instruction 0 (Op_other 1) [], new_instruction 1 Op_jmp_e [1, 2, 1],
          new_instruction 2 Op_call [3]]\<rparr>"
  let ?s1 = "\<lparr>labels = [1], instructions = [new_instruction 3 (Op_other 2) []]\<rparr>"
  let ?post = "[\<lparr>labels = [2], instructions = [new_instruction 4 Op_jmp [7]]\<rparr>,
      \<lparr>labels = [3], instructions = [new_instruction 5 Op_ret []]\<rparr>]"
  have e1: "linking_example = [] @ ?s0 # [] @ ?s1 # ?post"
    by (simp add: linking_example_def)
  have "\<exists>cfgA lbA cfg0 lb cfg.
      create_all_blocks ([] @ [?s0]) = Inr (cfgA, lbA) \<and> length (blocks cfgA) = 2 \<and>
      create_all_blocks linking_example = Inr (cfg0, lb) \<and>
      create_control_flow_graph 2 linking_example = Some (Inr cfg) \<and>
      branch_type (blocks cfg ! 1) = Call"
    by (simp add: linking_example_def blk_eval) (simp add: lnk_eval)
  then obtain cfgA lbA cfg0 lb cfg where
    a: "create_all_blocks ([] @ [?s0]) = Inr (cfgA, lbA)" and la: "length (blocks cfgA) = 2"
    and c: "create_all_blocks linking_example = Inr (cfg0, lb)"
    and g: "create_control_flow_graph 2 linking_example = Some (Inr cfg)"
    and bt: "branch_type (blocks cfg ! 1) = Call"
    by blast
  have first: "\<exists>cfg0 lb cfg.
      create_all_blocks linking_example = Inr (cfg0, lb) \<and>
      create_control_flow_graph 2 linking_example = Some (Inr cfg) \<and>
      segment (blocks cfg ! 1) = linking_example ! 0 \<and> end_idx (blocks cfg ! 1) = 3 \<and>
      segment (blocks cfg ! 2) = linking_example ! 1 \<and> start (blocks cfg ! 2) = 0 \<and>
      branch_type (blocks cfg ! 1) = Call \<and>
      (1, 2) \<in> set (snd (link_edges lb (blocks cfg0)))"
    using fallthrough_across_segments [OF a c [unfolded e1] g [unfolded e1], of 1 "length (blocks cfg) - 1"]
      la bt c g
    by (intro exI [of _ cfg0] exI [of _ lb] exI [of _ cfg])
       (simp add: new_instruction_def linking_example_def numeral_2_eq_2)
  let ?t0 = "\<lparr>labels = [0], instructions = [new_instruction 0 (Op_other 1) []]\<rparr>"
  let ?mid = "[\<lparr>labels = [9], instructions = []\<rparr>]"
  let ?t2 = "\<lparr>labels = [5], instructions = [new_instruction 1 Op_call [5]]\<rparr>"
  have e2: "last_call_example = [] @ ?t0 # ?mid @ ?t2 # []"
    by (simp add: last_call_example_def)
  have "\<exists>cfgA lbA cfg0 lb cfg.
      create_all_blocks ([] @ [?t0]) = Inr (cfgA, lbA) \<and> length (blocks cfgA) = 1 \<and>
      create_all_blocks last_call_example = Inr (cfg0, lb) \<and>
      create_control_flow_graph 0 last_call_example = Some (Inr cfg) \<and>
      length (blocks cfg) = 2 \<and>
      branch_type (blocks cfg ! 0) = None_branch \<and> branch_labels (blocks cfg ! 0) = [] \<and>
      branch_type (blocks cfg ! 1) = Call \<and> branch_labels (blocks cfg ! 1) = [5] \<and>
      lb 5 = Some 1"
    by (simp add: last_call_example_def blk_eval) (simp add: lnk_eval)
  then obtain cfgA' lbA' cfg0' lb' cfg' where
    a': "create_all_blocks ([] @ [?t0]) = Inr (cfgA', lbA')" and la': "length (blocks cfgA') = 1"
    and c': "create_all_blocks last_call_example = Inr (cfg0', lb')"
    and g': "create_control_flow_graph 0 last_call_example = Some (Inr cfg')"
    and f': "length (blocks cfg') = 2"
      "branch_type (blocks cfg' ! 0) = None_branch" "branch_labels (blocks cfg' ! 0) = []"
      "branch_type (blocks cfg' ! 1) = Call" "branch_labels (blocks cfg' ! 1) = [5]"
      "lb' 5 = Some 1"
    by blast
  have second: "\<exists>cfg0 lb cfg.
      create_all_blocks last_call_example = Inr (cfg0, lb) \<and>
      create_control_flow_graph 0 last_call_example = Some (Inr cfg) \<and>
      length (blocks cfg) = 2 \<and>
      segment (blocks cfg ! 0) = last_call_example ! 0 \<and>
      segment (blocks cfg ! 1) = last_call_example ! 2 \<and>
      branch_type (blocks cfg ! 0) = None_branch \<and> to_blocks (blocks cfg ! 0) = [1] \<and>
      branch_type (blocks cfg ! 1) = Call \<and> to_blocks (blocks cfg ! 1) = [1] \<and>
      \<not> (\<exists>p \<in> set (snd (link_edges lb (blocks cfg0))). fst p = 1)"
    using fallthrough_across_segments [OF a' c' [unfolded e2] g' [unfolded e2], of 0 1]
      la' f' c' g'
    by (intro exI [of _ cfg0'] exI [of _ lb'] exI [of _ cfg'])
       (auto simp: new_instruction_def last_call_example_def)
  from first second show ?thesis ..
qed

lemma map_filter_resolved:
  "List.map_filter f xs = List.map_filter f (filter (\<lambda>x. f x \<noteq> None) xs)"
  by (induction xs) (auto split: option.splits)

text \<open>
  C7. A query for an instruction that is not a key of \<open>cfg.instructions\<close> returns the
  empty value set, whatever the depth bound. Building the graph never throws when every
  instruction has the operands that block splitting reads, whichever labels those
  operands name. A label resolves exactly when a segment with at least one instruction
  carries it, and the successors of a block that is not a \<open>Return\<close> block are its
  fallthrough successor and the blocks of those of its branch labels that resolve: a
  label that no such segment carries adds no edge.
\<close>

theorem dangling_references:
  "(cfg_instructions g (iref instruction) = None \<longrightarrow>
      register_value_set m g instruction register = Some (Inr new_ValueSet)) \<and>
   ((\<forall>seg \<in> set segments. \<forall>inst \<in> set (instructions seg). operands_ok inst) \<longrightarrow>
      create_control_flow_graph n segments \<noteq> Some (Inl e)) \<and>
   (create_all_blocks segments = Inr (cfg0, label_blocks) \<longrightarrow>
    create_control_flow_graph n segments = Some (Inr cfg) \<longrightarrow>
      (\<forall>l. (label_blocks l = None) =
            (\<not> (\<exists>seg \<in> set segments. instructions seg \<noteq> [] \<and> l \<in> set (labels seg)))) \<and>
      (\<forall>i < length (blocks cfg). branch_type (blocks cfg ! i) \<noteq> Return \<longrightarrow>
         to_blocks (blocks cfg ! i) =
           fallthrough (blocks cfg) i @
           List.map_filter label_blocks
             (filter (\<lambda>l. \<exists>seg \<in> set segments. instructions seg \<noteq> [] \<and> l \<in> set (labels seg))
                (branch_labels (blocks cfg ! i)))))"
proof (intro conjI impI)
  assume "cfg_instructions g (iref instruction) = None"
  then show "register_value_set m g instruction register = Some (Inr new_ValueSet)"
    by (simp add: register_value_set_def)
next
  assume "\<forall>seg \<in> set segments. \<forall>inst \<in> set (instructions seg). operands_ok inst"
  then have "create_all_blocks segments \<noteq> Inl e"
    by (rule create_all_blocks_no_throw)
  then show "create_control_flow_graph n segments \<noteq> Some (Inl e)"
    by (auto simp: create_control_flow_graph_def split: sum.splits option.splits)
next
  assume c: "create_all_blocks segments = Inr (cfg0, label_blocks)"
    and g: "create_control_flow_graph n segments = Some (Inr cfg)"
  from c g have l: "link_blocks n label_blocks cfg0 = Some cfg"
    by (auto simp: create_control_flow_graph_def split: option.splits)
  from c have "fold_err create_basic_blocks segments (empty_cfg, Map.empty) = Inr (cfg0, label_blocks)"
    by (simp add: create_all_blocks_def)
  from create_segments_dom [OF this]
  have dom: "(label_blocks l = None) =
      (\<not> (\<exists>seg \<in> set segments. instructions seg \<noteq> [] \<and> l \<in> set (labels seg)))" for l
    by simp
  then show "\<forall>l. (label_blocks l = None) =
      (\<not> (\<exists>seg \<in> set segments. instructions seg \<noteq> [] \<and> l \<in> set (labels seg)))"
    by blast
  have flt: "(\<lambda>l. \<exists>seg \<in> set segments. instructions seg \<noteq> [] \<and> l \<in> set (labels seg)) =
             (\<lambda>l. label_blocks l \<noteq> None)"
    using dom by auto
  show "\<forall>i < length (blocks cfg). branch_type (blocks cfg ! i) \<noteq> Return \<longrightarrow>
         to_blocks (blocks cfg ! i) =
           fallthrough (blocks cfg) i @
           List.map_filter label_blocks
             (filter (\<lambda>l. \<exists>seg \<in> set segments. instructions seg \<noteq> [] \<and> l \<in> set (labels seg))
                (branch_labels (blocks cfg ! i)))"
    unfolding flt using edge_linking_core(1) [OF c l] map_filter_resolved [of label_blocks]
    by simp
qed

theorem dangling_references_witness:
  "\<exists>cfg0 lb cfg.
     create_all_blocks linking_example = Inr (cfg0, lb) \<and>
     create_control_flow_graph 2 linking_example = Some (Inr cfg) \<and>
     branch_type (blocks cfg ! 3) = Jump \<and> branch_labels (blocks cfg ! 3) = [7] \<and>
     lb 7 = None \<and> to_blocks (blocks cfg ! 3) = [] \<and>
     create_control_flow_graph 2 linking_example \<noteq> Some (Inl TypeError) \<and>
     cfg_instructions cfg (iref (new_instruction 99 Op_ret [])) = None \<and>
     register_value_set 0 cfg (new_instruction 99 Op_ret []) 0 = Some (Inr new_ValueSet)"
proof -
  have "\<exists>cfg0 lb cfg.
     create_all_blocks linking_example = Inr (cfg0, lb) \<and>
     create_control_flow_graph 2 linking_example = Some (Inr cfg) \<and>
     length (blocks cfg) = 5 \<and>
     branch_type (blocks cfg ! 3) = Jump \<and> branch_labels (blocks cfg ! 3) = [7] \<and>
     cfg_instructions cfg (iref (new_instruction 99 Op_ret [])) = None"
    by (simp add: linking_example_def blk_eval) (simp add: lnk_eval)
  then obtain cfg0 lb cfg where c: "create_all_blocks linking_example = Inr (cfg0, lb)"
    and g: "create_control_flow_graph 2 linking_example = Some (Inr cfg)"
    and f: "length (blocks cfg) = 5" "branch_type (blocks cfg ! 3) = Jump"
      "branch_labels (blocks cfg ! 3) = [7]"
    and k: "cfg_instructions cfg (iref (new_instruction 99 Op_ret [])) = None"
    by blast
  have ok: "\<forall>seg \<in> set linking_example. \<forall>inst \<in> set (instructions seg). operands_ok inst"
    by (simp add: linking_example_def operands_ok_def new_instruction_def branch_of_def
        one_label_def arg_at_def)
  note w = dangling_references [of cfg "new_instruction 99 Op_ret []" 0 0 linking_example 2
      TypeError cfg0 lb cfg]
  from w k have "register_value_set 0 cfg (new_instruction 99 Op_ret []) 0 = Some (Inr new_ValueSet)"
    by blast
  moreover from w ok have "create_control_flow_graph 2 linking_example \<noteq> Some (Inl TypeError)"
    by blast
  moreover from w c g have "lb 7 = None"
    by (simp add: linking_example_def)
  moreover from w c g f have "to_blocks (blocks cfg ! 3) = []"
    by (simp add: linking_example_def fallthrough_def)
  ultimately show ?thesis
    using c g f k by blast
qed

lemma size_vs_0 [simp]: "(size_vs vs = 0) = (vs = {||})"
  by (simp add: size_vs_def fcard_0_eq)

lemma fold_res_append:
  "fold_res f (xs @ ys) s =
     (case fold_res f xs s of
        None \<Rightarrow> None
      | Some (Inl e) \<Rightarrow> Some (Inl e)
      | Some (Inr s') \<Rightarrow> fold_res f ys s')"
  by (induction xs arbitrary: s) (auto split: option.splits sum.splits)

lemma scan_step_passes:
  "j < length insts \<Longrightarrow> passes (insts ! j) r \<Longrightarrow> scan_step recur insts r j v = Some (Inr v)"
  by (cases "opcode (insts ! j)")
     (auto simp: scan_step_def immediate_load_def passes_def split: sum.splits)

lemma fold_res_passes:
  "\<forall>j \<in> set js. j < length insts \<and> passes (insts ! j) r \<Longrightarrow>
     fold_res (scan_step recur insts r) js v = Some (Inr v)"
  by (induction js) (simp_all add: scan_step_passes)

lemma scan_step_copy:
  "i < length insts \<Longrightarrow> opcode (insts ! i) = Op_let \<Longrightarrow>
   arg_at (args (insts ! i)) 0 = Inr r \<Longrightarrow> arg_at (args (insts ! i)) 1 = Inr s \<Longrightarrow>
     scan_step recur insts r i v = recur i s"
  by (simp add: scan_step_def)

lemma upt_split_at:
  assumes "a \<le> i" and "i < e"
  shows "[a..<e] = [a..<i] @ i # [Suc i..<e]"
proof -
  have "[a..<i + (e - i)] = [a..<i] @ [i..<i + (e - i)]"
    using assms(1) by (rule upt_add_eq_append)
  with assms(2) show ?thesis
    by (simp add: upt_conv_Cons)
qed

lemma union_loop:
  "\<forall>p \<in> set ps. recur p = Some (Inr (V p)) \<Longrightarrow>
     fold_res (union_step recur) ps v = Some (Inr (v |\<union>| ffUnion (fset_of_list (map V ps))))"
proof (induction ps arbitrary: v)
  case Nil
  then show ?case by simp
next
  case (Cons p ps)
  then show ?case
    by (simp add: union_step_def union_vs_def funion_assoc)
qed

text \<open>
  C10. Let the last instruction before the query point that the scan acts on for the
  register \<open>r\<close> be a copy \<open>let r, s\<close> at index \<open>i\<close> of the block (the instructions after
  it up to the query point leave \<open>r\<close> alone), and let the value set of \<open>s\<close> at the copy
  be empty. Then, whatever the instructions before the copy are (provided the query at
  the copy returns at all), the query for \<open>r\<close> returns the union of the value sets of
  \<open>r\<close> at the end of the predecessor blocks.
\<close>

theorem copy_of_empty_falls_back:
  assumes m: "cfg_instructions cfg (iref instruction) = Some b"
    and q: "find_inst_idx (blocks cfg ! b) (iref instruction) (start (blocks cfg ! b)) = e"
    and insts: "insts = instructions (segment (blocks cfg ! b))"
    and i: "start (blocks cfg ! b) \<le> i" "i < e" "e \<le> length insts"
    and copy: "opcode (insts ! i) = Op_let" "arg_at (args (insts ! i)) 0 = Inr r"
      "arg_at (args (insts ! i)) 1 = Inr s"
    and later: "\<forall>j. i < j \<and> j < e \<longrightarrow> passes (insts ! j) r"
    and src: "find_value_set n (blocks cfg) b i s = Some (Inr {||})"
    and before: "find_value_set (Suc n) (blocks cfg) b i r = Some (Inr v0)"
    and preds: "\<forall>p \<in> set (from_blocks (blocks cfg ! b)).
                  find_value_set n (blocks cfg) p (end_idx (blocks cfg ! p)) r = Some (Inr (V p))"
  shows "register_value_set (Suc n) cfg instruction r =
           Some (Inr (ffUnion (fset_of_list (map V (from_blocks (blocks cfg ! b))))))"
proof -
  let ?bs = "blocks cfg"
  let ?f = "scan_step (\<lambda>i r. find_value_set n ?bs b i r) insts r"
  from before obtain v1 where pre: "fold_res ?f [start (?bs ! b)..<i] new_ValueSet = Some (Inr v1)"
    by (auto simp: insts split: option.splits sum.splits if_splits)
  have at: "?f i v1 = Some (Inr {||})"
    using scan_step_copy [of i insts r s] i copy src by simp
  have post: "fold_res ?f [Suc i..<e] {||} = Some (Inr {||})"
    using later i by (intro fold_res_passes) auto
  have "[start (?bs ! b)..<e] = [start (?bs ! b)..<i] @ [i] @ [Suc i..<e]"
    using upt_split_at [OF i(1,2)] by simp
  then have "fold_res ?f [start (?bs ! b)..<e] new_ValueSet = Some (Inr {||})"
    by (simp add: fold_res_append pre at post)
  then have "find_value_set (Suc n) ?bs b e r =
      fold_res (union_step (\<lambda>p. find_value_set n ?bs p (end_idx (?bs ! p)) r))
        (from_blocks (?bs ! b)) {||}"
    by (simp add: insts)
  also have "\<dots> = Some (Inr ({||} |\<union>| ffUnion (fset_of_list (map V (from_blocks (?bs ! b))))))"
    using preds by (intro union_loop) simp
  finally show ?thesis
    using m q by (simp add: register_value_set_def)
qed

lemmas vs_eval =
  register_value_set_def find_inst_idx.simps scan_step_def immediate_load_def union_step_def
  new_ValueSet_def set_value_def union_vs_def arg_at_def upt_rec numeral_eq_Suc

theorem copy_of_empty_falls_back_witness:
  "\<exists>cfg. create_control_flow_graph 0 copy_example = Some (Inr cfg) \<and>
     opcode (instructions (segment (blocks cfg ! 1)) ! 0) = Op_leti \<and>
     args (instructions (segment (blocks cfg ! 1)) ! 0) = [\<lparr>arg_value = 1\<rparr>, \<lparr>arg_value = 9\<rparr>] \<and>
     find_value_set 3 (blocks cfg) 1 1 1 = Some (Inr {|9|}) \<and>
     find_value_set 2 (blocks cfg) 1 1 2 = Some (Inr {||}) \<and>
     from_blocks (blocks cfg ! 1) = [0] \<and>
     find_value_set 2 (blocks cfg) 0 (end_idx (blocks cfg ! 0)) 1 = Some (Inr {|7|}) \<and>
     register_value_set 3 cfg (new_instruction 4 Op_ret []) 1 = Some (Inr {|7|})"
proof -
  have "\<exists>cfg. create_control_flow_graph 0 copy_example = Some (Inr cfg) \<and>
     cfg_instructions cfg (iref (new_instruction 4 Op_ret [])) = Some 1 \<and>
     find_inst_idx (blocks cfg ! 1) (iref (new_instruction 4 Op_ret [])) (start (blocks cfg ! 1)) = 3 \<and>
     instructions (segment (blocks cfg ! 1)) =
       [new_instruction 1 Op_leti [1, 9], new_instruction 2 Op_let [1, 2],
        new_instruction 3 Op_leti [5, 0], new_instruction 4 Op_ret []] \<and>
     start (blocks cfg ! 1) = 0 \<and>
     find_value_set 3 (blocks cfg) 1 1 1 = Some (Inr {|9|}) \<and>
     find_value_set 2 (blocks cfg) 1 1 2 = Some (Inr {||}) \<and>
     from_blocks (blocks cfg ! 1) = [0] \<and>
     find_value_set 2 (blocks cfg) 0 (end_idx (blocks cfg ! 0)) 1 = Some (Inr {|7|})"
    apply (simp add: copy_example_def blk_eval del: find_value_set.simps)
    apply (simp add: lnk_eval del: find_value_set.simps)
    apply (simp add: vs_eval)
    done
  then obtain cfg where g: "create_control_flow_graph 0 copy_example = Some (Inr cfg)"
    and m: "cfg_instructions cfg (iref (new_instruction 4 Op_ret [])) = Some 1"
    and q: "find_inst_idx (blocks cfg ! 1) (iref (new_instruction 4 Op_ret [])) (start (blocks cfg ! 1)) = 3"
    and insts: "instructions (segment (blocks cfg ! 1)) =
       [new_instruction 1 Op_leti [1, 9], new_instruction 2 Op_let [1, 2],
        new_instruction 3 Op_leti [5, 0], new_instruction 4 Op_ret []]"
    and st: "start (blocks cfg ! 1) = 0"
    and before: "find_value_set 3 (blocks cfg) 1 1 1 = Some (Inr {|9|})"
    and src: "find_value_set 2 (blocks cfg) 1 1 2 = Some (Inr {||})"
    and fr: "from_blocks (blocks cfg ! 1) = [0]"
    and preds: "find_value_set 2 (blocks cfg) 0 (end_idx (blocks cfg ! 0)) 1 = Some (Inr {|7|})"
    by blast
  have later: "\<forall>j. 1 < j \<and> j < 3 \<longrightarrow>
      passes ([new_instruction 1 Op_leti [1, 9], new_instruction 2 Op_let [1, 2],
        new_instruction 3 Op_leti [5, 0], new_instruction 4 Op_ret []] ! j) 1"
  proof (intro allI impI)
    fix j :: nat
    assume "1 < j \<and> j < 3"
    then have "j = 2" by simp
    then show "passes ([new_instruction 1 Op_leti [1, 9], new_instruction 2 Op_let [1, 2],
        new_instruction 3 Op_leti [5, 0], new_instruction 4 Op_ret []] ! j) 1"
      by (simp add: passes_def new_instruction_def arg_at_def)
  qed
  have "register_value_set (Suc 2) cfg (new_instruction 4 Op_ret []) 1 =
          Some (Inr (ffUnion (fset_of_list (map (\<lambda>p. {|7|}) (from_blocks (blocks cfg ! 1))))))"
    by (rule copy_of_empty_falls_back [OF m q insts [symmetric] _ _ _ _ _ _ later src _ ])
       (use st before preds fr in \<open>simp_all add: new_instruction_def arg_at_def numeral_3_eq_3\<close>)
  with fr have "register_value_set 3 cfg (new_instruction 4 Op_ret []) 1 = Some (Inr {|7|})"
    by (simp add: numeral_3_eq_3)
  with g insts before src fr preds show ?thesis
    by (intro exI [of _ cfg]) (simp add: new_instruction_def)
qed

lemma link_returning_blocks_self:
  "lb l = Some b \<Longrightarrow> branch_labels (bs ! b) = l # ls \<Longrightarrow> branch_type (bs ! b) \<noteq> Return \<Longrightarrow>
     link_returning_blocks n lb ret b bs = None"
  by (induction n) simp_all

lemma fold_opt_total:
  assumes "I s" and "\<And>x s. x \<in> set xs \<Longrightarrow> I s \<Longrightarrow> \<exists>s'. f x s = Some s' \<and> I s'"
  shows "\<exists>s'. fold_opt f xs s = Some s' \<and> I s'"
  using assms
proof (induction xs arbitrary: s)
  case Nil
  then show ?case by simp
next
  case (Cons x xs)
  from Cons.prems(2) [of x s] Cons.prems(1) obtain s1 where s1: "f x s = Some s1" "I s1"
    by auto
  from Cons.IH [OF s1(2)] Cons.prems(2) obtain s' where "fold_opt f xs s1 = Some s'" "I s'"
    by auto
  with s1 show ?case by simp
qed

lemma keeps_static: "keeps bs bs' \<Longrightarrow> map static bs' = map static bs"
  by (simp add: keeps_def)

lemma link_returning_blocks_total:
  assumes rank: "\<forall>b < length bs0. \<forall>l \<in> set (branch_labels (bs0 ! b)). \<forall>t. lb l = Some t \<longrightarrow>
                   t < length bs0 \<and> rank t < (rank b :: nat)"
  shows "map static bs = map static bs0 \<Longrightarrow> block < length bs0 \<Longrightarrow> rank block < n \<Longrightarrow>
           \<exists>bs'. link_returning_blocks n lb ret block bs = Some bs' \<and> map static bs' = map static bs0"
proof (induction n arbitrary: block bs)
  case 0
  then show ?case by simp
next
  case (Suc n)
  have lab: "branch_labels (bs ! block) = branch_labels (bs0 ! block)"
    using static_fields(5) [OF static_nth [OF Suc.prems(1,2)]] .
  have "\<exists>s'. fold_opt
       (\<lambda>label bs.
          case lb label of
            None \<Rightarrow> Some bs
          | Some sub_block \<Rightarrow>
              link_returning_blocks n lb ret sub_block
                (if branch_type (bs ! sub_block) = Return then link_to sub_block ret bs else bs))
       (branch_labels (bs0 ! block)) bs = Some s' \<and> map static s' = map static bs0"
  proof (rule fold_opt_total [where I = "\<lambda>s. map static s = map static bs0"])
    show "map static bs = map static bs0" by (rule Suc.prems(1))
  next
    fix l s
    assume l: "l \<in> set (branch_labels (bs0 ! block))" and s: "map static s = map static bs0"
    show "\<exists>s'. (case lb l of None \<Rightarrow> Some s
           | Some sub_block \<Rightarrow>
               link_returning_blocks n lb ret sub_block
                 (if branch_type (s ! sub_block) = Return then link_to sub_block ret s else s)) = Some s' \<and>
          map static s' = map static bs0"
    proof (cases "lb l")
      case None
      with s show ?thesis by simp
    next
      case (Some sub)
      with rank Suc.prems(2) l have sub: "sub < length bs0" "rank sub < rank block"
        by auto
      with Suc.prems(3) have "rank sub < n" by simp
      moreover have "map static (if branch_type (s ! sub) = Return then link_to sub ret s else s) =
                     map static bs0"
        using s by simp
      ultimately show ?thesis
        using Suc.IH [of "if branch_type (s ! sub) = Return then link_to sub ret s else s" sub]
          sub(1) Some by simp
    qed
  qed
  with lab show ?case by simp
qed

text \<open>
  C3, as the code has it. The walk of \<open>link_returning_blocks\<close> has no guard against
  revisiting a block. It returns when the label references between blocks have no cycle:
  when some ranking of the blocks gets smaller along every reference from a block to the
  block that one of its branch labels resolves to. Then \<open>create_control_flow_graph\<close>
  returns a graph, and when block splitting throws it returns with that error.
\<close>

theorem cfg_construction_terminates:
  "(create_all_blocks segments = Inl e \<longrightarrow> create_control_flow_graph n segments = Some (Inl e)) \<and>
   (create_all_blocks segments = Inr (cfg0, label_blocks) \<longrightarrow>
    (\<forall>b < length (blocks cfg0). \<forall>l \<in> set (branch_labels (blocks cfg0 ! b)). \<forall>t.
        label_blocks l = Some t \<longrightarrow> rank t < (rank b :: nat)) \<longrightarrow>
    (\<exists>m cfg. create_control_flow_graph m segments = Some (Inr cfg)))"
proof (intro conjI impI)
  assume "create_all_blocks segments = Inl e"
  then show "create_control_flow_graph n segments = Some (Inl e)"
    by (simp add: create_control_flow_graph_def)
next
  let ?bs0 = "blocks cfg0"
  assume c: "create_all_blocks segments = Inr (cfg0, label_blocks)"
    and r: "\<forall>b < length ?bs0. \<forall>l \<in> set (branch_labels (?bs0 ! b)). \<forall>t.
        label_blocks l = Some t \<longrightarrow> rank t < rank b"
  have rank: "\<forall>b < length ?bs0. \<forall>l \<in> set (branch_labels (?bs0 ! b)). \<forall>t. label_blocks l = Some t \<longrightarrow>
                   t < length ?bs0 \<and> rank t < rank b"
    using r create_all_blocks_props(3) [OF c] by (simp add: labels_ok_def)
  obtain bs1 callers where e: "link_edges label_blocks ?bs0 = (bs1, callers)"
    by (cases "link_edges label_blocks ?bs0")
  note st1 = link_edges_props(1) [OF e]
  define m where "m = Suc (sum_list (map rank [0..<length ?bs0]))"
  have big: "rank b < m" if "b < length ?bs0" for b
    using member_le_sum_list [of "rank b" "map rank [0..<length ?bs0]"] that
    by (simp add: m_def less_Suc_eq_le)
  have "\<exists>s'. fold_opt (\<lambda>(caller, ret) bs. link_returning_blocks m label_blocks ret caller bs)
          callers bs1 = Some s' \<and> map static s' = map static ?bs0"
  proof (rule fold_opt_total [where I = "\<lambda>s. map static s = map static ?bs0"])
    show "map static bs1 = map static ?bs0" by (rule st1)
  next
    fix x s
    assume x: "x \<in> set callers" and s: "map static s = map static ?bs0"
    from x link_edges_props(3) [OF e] call_pairs_fst [of x ?bs0 "length ?bs0"]
    have "fst x < length ?bs0" by simp
    from link_returning_blocks_total [OF rank s this big [OF this], of "snd x"]
    show "\<exists>s'. (case x of (caller, ret) \<Rightarrow> link_returning_blocks m label_blocks ret caller) s = Some s' \<and>
               map static s' = map static ?bs0"
      by (cases x) simp
  qed
  then obtain bs' where "fold_opt (\<lambda>(caller, ret) bs. link_returning_blocks m label_blocks ret caller bs)
          callers bs1 = Some bs'"
    by blast
  with e c have "create_control_flow_graph m segments = Some (Inr (cfg0\<lparr>blocks := bs'\<rparr>))"
    by (simp add: create_control_flow_graph_def link_blocks_def)
  then show "\<exists>m cfg. create_control_flow_graph m segments = Some (Inr cfg)"
    by blast
qed

theorem cfg_construction_diverges:
  "\<not> (\<exists>n r. create_control_flow_graph n recursive_example = Some r)"
proof -
  have "\<exists>cfg0 lb bs1. create_all_blocks recursive_example = Inr (cfg0, lb) \<and>
          link_edges lb (blocks cfg0) = (bs1, [(0, 1)]) \<and>
          branch_labels (bs1 ! 0) = [0] \<and> branch_type (bs1 ! 0) = Call \<and> lb 0 = Some 0"
    by (simp add: recursive_example_def blk_eval) (simp add: lnk_eval)
  then obtain cfg0 lb bs1 where c: "create_all_blocks recursive_example = Inr (cfg0, lb)"
    and e: "link_edges lb (blocks cfg0) = (bs1, [(0, 1)])"
    and f: "branch_labels (bs1 ! 0) = [0]" "branch_type (bs1 ! 0) = Call" "lb 0 = Some 0"
    by blast
  have "link_returning_blocks n lb 1 0 bs1 = None" for n
    using link_returning_blocks_self [of lb 0 0 bs1 "[]" n 1] f by simp
  then have "link_blocks n lb cfg0 = None" for n
    by (simp add: link_blocks_def e)
  then have "create_control_flow_graph n recursive_example = None" for n
    by (simp add: create_control_flow_graph_def c)
  then show ?thesis by simp
qed

theorem cfg_construction_terminates_witness:
  "create_all_blocks malformed_example = Inl TypeError \<and>
   create_control_flow_graph 0 malformed_example = Some (Inl TypeError) \<and>
   (\<exists>cfg0 lb. create_all_blocks linking_example = Inr (cfg0, lb) \<and>
      map branch_labels (blocks cfg0) = [[1], [3], [], [7], []] \<and>
      lb 1 = Some 2 \<and> lb 3 = Some 4 \<and> lb 7 = None \<and>
      (\<exists>m cfg. create_control_flow_graph m linking_example = Some (Inr cfg)))"
proof -
  have t: "create_all_blocks malformed_example = Inl TypeError"
    by (simp add: malformed_example_def blk_eval)
  have "\<exists>cfg0 lb. create_all_blocks linking_example = Inr (cfg0, lb) \<and>
      map branch_labels (blocks cfg0) = [[1], [3], [], [7], []] \<and>
      lb 1 = Some 2 \<and> lb 3 = Some 4 \<and> lb 7 = None"
    by (simp add: linking_example_def blk_eval)
  then obtain cfg0 lb where c: "create_all_blocks linking_example = Inr (cfg0, lb)"
    and bl: "map branch_labels (blocks cfg0) = [[1], [3], [], [7], []]"
    and lb: "lb 1 = Some 2" "lb 3 = Some 4" "lb 7 = None"
    by (elim exE conjE)
  have len: "length (blocks cfg0) = 5"
    using arg_cong [OF bl, of length] by simp
  have nth: "branch_labels (blocks cfg0 ! b) = [[1], [3], [], [7], []] ! b" if "b < 5" for b
    using that len nth_map [of b "blocks cfg0" branch_labels] bl by simp
  have r: "\<forall>b < length (blocks cfg0). \<forall>l \<in> set (branch_labels (blocks cfg0 ! b)). \<forall>t.
        lb l = Some t \<longrightarrow> 4 - t < 4 - b"
  proof (intro allI impI ballI)
    fix b l t
    assume b: "b < length (blocks cfg0)" and l: "l \<in> set (branch_labels (blocks cfg0 ! b))"
      and t: "lb l = Some t"
    from b len have "b = 0 \<or> b = 1 \<or> b = 2 \<or> b = 3 \<or> b = 4"
      by auto
    with l t lb nth [of b] show "4 - t < 4 - b"
      by auto
  qed
  from cfg_construction_terminates [of malformed_example TypeError 0] t
  have "create_control_flow_graph 0 malformed_example = Some (Inl TypeError)"
    by blast
  moreover from cfg_construction_terminates [of linking_example _ _ cfg0 lb "\<lambda>b. 4 - b"] c r
  have "\<exists>m cfg. create_control_flow_graph m linking_example = Some (Inr cfg)"
    by blast
  ultimately show ?thesis
    using t c bl lb by auto
qed

lemma find_value_set_self_loop:
  assumes "from_blocks (bs ! b) = b # ps"
    and "\<forall>j < end_idx (bs ! b). j < length (instructions (segment (bs ! b))) \<and>
           passes (instructions (segment (bs ! b)) ! j) r"
  shows "e \<le> end_idx (bs ! b) \<Longrightarrow> find_value_set n bs b e r = None"
proof (induction n arbitrary: e)
  case 0
  then show ?case by simp
next
  case (Suc n)
  have "fold_res (scan_step (\<lambda>i r. find_value_set n bs b i r) (instructions (segment (bs ! b))) r)
          [start (bs ! b)..<e] new_ValueSet = Some (Inr new_ValueSet)"
    using assms(2) Suc.prems by (intro fold_res_passes) auto
  moreover have "find_value_set n bs b (end_idx (bs ! b)) r = None"
    by (rule Suc.IH) simp
  ultimately show ?case
    by (simp add: assms(1) union_step_def new_ValueSet_def)
qed

theorem value_set_diverges:
  "\<exists>cfg. create_control_flow_graph 0 loop_example = Some (Inr cfg) \<and>
     \<not> (\<exists>n res. register_value_set n cfg (new_instruction 0 Op_jmp [0]) 1 = Some res)"
proof -
  have "\<exists>cfg. create_control_flow_graph 0 loop_example = Some (Inr cfg) \<and>
          cfg_instructions cfg (iref (new_instruction 0 Op_jmp [0])) = Some 0 \<and>
          from_blocks (blocks cfg ! 0) = [0] \<and> end_idx (blocks cfg ! 0) = 1 \<and>
          start (blocks cfg ! 0) = 0 \<and>
          instructions (segment (blocks cfg ! 0)) = [new_instruction 0 Op_jmp [0]]"
    by (simp add: loop_example_def blk_eval) (simp add: lnk_eval)
  then obtain cfg where g: "create_control_flow_graph 0 loop_example = Some (Inr cfg)"
    and m: "cfg_instructions cfg (iref (new_instruction 0 Op_jmp [0])) = Some 0"
    and f: "from_blocks (blocks cfg ! 0) = [0]" "end_idx (blocks cfg ! 0) = 1"
      "start (blocks cfg ! 0) = 0"
      "instructions (segment (blocks cfg ! 0)) = [new_instruction 0 Op_jmp [0]]"
    by blast
  have idx: "find_inst_idx (blocks cfg ! 0) (iref (new_instruction 0 Op_jmp [0])) 0 = 0"
    by (simp add: find_inst_idx.simps f)
  have "find_value_set n (blocks cfg) 0 0 1 = None" for n
    by (rule find_value_set_self_loop [OF f(1)])
       (simp_all add: f passes_def new_instruction_def)
  then have "register_value_set n cfg (new_instruction 0 Op_jmp [0]) 1 = None" for n
    using m idx f(3) by (simp add: register_value_set_def)
  with g show ?thesis by simp
qed

lemma fold_res_not_None:
  "(\<And>x s. x \<in> set xs \<Longrightarrow> f x s \<noteq> None) \<Longrightarrow> fold_res f xs s \<noteq> None"
  by (induction xs arbitrary: s) (auto split: option.splits sum.splits)

lemma scan_step_not_None:
  "(\<And>a. arg_at (args (insts ! i)) 1 = Inr a \<Longrightarrow> recur i a \<noteq> None) \<Longrightarrow>
     scan_step recur insts r i v \<noteq> None"
  by (cases "opcode (insts ! i)")
     (auto simp: scan_step_def immediate_load_def split: sum.splits)

lemma union_step_not_None: "recur p \<noteq> None \<Longrightarrow> union_step recur p v \<noteq> None"
  by (auto simp: union_step_def split: option.splits sum.splits)

lemma bounded_choice:
  "\<forall>x \<in> set xs. \<exists>N. \<forall>n \<ge> N. Q x n \<Longrightarrow> \<exists>N. \<forall>x \<in> set xs. \<forall>n \<ge> N. Q x (n :: nat)"
proof (induction xs)
  case Nil
  then show ?case by simp
next
  case (Cons x xs)
  then obtain N1 N2 where "\<forall>n \<ge> N1. Q x n" "\<forall>y \<in> set xs. \<forall>n \<ge> N2. Q y n"
    by auto
  then have "\<forall>y \<in> set (x # xs). \<forall>n \<ge> max N1 N2. Q y n"
    by auto
  then show ?case ..
qed

lemma find_value_set_total:
  assumes rank: "\<forall>b < length bs. \<forall>p \<in> set (from_blocks (bs ! b)). p < length bs \<and> rank p < (rank b :: nat)"
  shows "b < length bs \<Longrightarrow> \<exists>N. \<forall>n \<ge> N. find_value_set n bs b e r \<noteq> None"
proof (induction "rank b" arbitrary: b e r rule: less_induct)
  case outer: less
  let ?insts = "instructions (segment (bs ! b))"
  show ?case
  proof (induction e arbitrary: r rule: less_induct)
    case (less e)
    have "\<forall>i \<in> set [start (bs ! b)..<e]. \<exists>N. \<forall>n \<ge> N.
            (\<forall>a. arg_at (args (?insts ! i)) 1 = Inr a \<longrightarrow> find_value_set n bs b i a \<noteq> None)"
    proof
      fix i
      assume "i \<in> set [start (bs ! b)..<e]"
      then have i: "i < e" by simp
      show "\<exists>N. \<forall>n \<ge> N. (\<forall>a. arg_at (args (?insts ! i)) 1 = Inr a \<longrightarrow> find_value_set n bs b i a \<noteq> None)"
      proof (cases "arg_at (args (?insts ! i)) 1")
        case (Inl err)
        then show ?thesis by simp
      next
        case (Inr a)
        from less.IH [OF i, of a] Inr show ?thesis by simp
      qed
    qed
    from bounded_choice [OF this] obtain N1 where N1:
      "\<forall>i \<in> set [start (bs ! b)..<e]. \<forall>n \<ge> N1.
         (\<forall>a. arg_at (args (?insts ! i)) 1 = Inr a \<longrightarrow> find_value_set n bs b i a \<noteq> None)"
      by blast
    have "\<forall>p \<in> set (from_blocks (bs ! b)). \<exists>N. \<forall>n \<ge> N.
            find_value_set n bs p (end_idx (bs ! p)) r \<noteq> None"
      using rank outer.prems outer.hyps by blast
    from bounded_choice [OF this] obtain N2 where N2:
      "\<forall>p \<in> set (from_blocks (bs ! b)). \<forall>n \<ge> N2.
         find_value_set n bs p (end_idx (bs ! p)) r \<noteq> None"
      by blast
    have "find_value_set n bs b e r \<noteq> None" if "n \<ge> Suc (max N1 N2)" for n
    proof -
      from that obtain k where n: "n = Suc k" and k: "k \<ge> N1" "k \<ge> N2"
        by (cases n) auto
      have scan: "fold_res (scan_step (\<lambda>i r. find_value_set k bs b i r) ?insts r)
                    [start (bs ! b)..<e] v \<noteq> None" for v
        using N1 k(1) by (intro fold_res_not_None scan_step_not_None) auto
      have un: "fold_res (union_step (\<lambda>p. find_value_set k bs p (end_idx (bs ! p)) r))
                  (from_blocks (bs ! b)) v \<noteq> None" for v
        using N2 k(2) by (intro fold_res_not_None union_step_not_None) auto
      show ?thesis
        unfolding n using scan [of new_ValueSet] un
        by (auto split: option.splits sum.splits)
    qed
    then show ?case by blast
  qed
qed

text \<open>
  C2, as the code has it. \<open>find_value_set\<close> follows \<open>block.from\<close> with no record of the
  blocks it has visited. A query returns (a value set or a thrown error) on every graph
  whose predecessor edges have no cycle: some ranking of the blocks gets smaller from a
  block to each of its predecessors.
\<close>

theorem value_set_terminates:
  assumes "\<forall>b < length (blocks cfg). \<forall>p \<in> set (from_blocks (blocks cfg ! b)).
             p < length (blocks cfg) \<and> rank p < (rank b :: nat)"
    and "\<forall>b. cfg_instructions cfg (iref instruction) = Some b \<longrightarrow> b < length (blocks cfg)"
  shows "\<exists>n res. register_value_set n cfg instruction register = Some res"
proof (cases "cfg_instructions cfg (iref instruction)")
  case None
  then show ?thesis
    by (simp add: register_value_set_def)
next
  case (Some b)
  with assms(2) have "b < length (blocks cfg)" by simp
  from find_value_set_total [OF assms(1) this] obtain N where
    "\<forall>n \<ge> N. find_value_set n (blocks cfg) b
       (find_inst_idx (blocks cfg ! b) (iref instruction) (start (blocks cfg ! b))) register \<noteq> None"
    by blast
  then have "register_value_set N cfg instruction register \<noteq> None"
    using Some by (simp add: register_value_set_def)
  then show ?thesis by blast
qed

theorem value_set_terminates_witness:
  "\<exists>cfg. create_control_flow_graph 0 join_example = Some (Inr cfg) \<and>
     map from_blocks (blocks cfg) = [[], [], [0, 1]] \<and>
     cfg_instructions cfg (iref (new_instruction 4 Op_ret [])) = Some 2 \<and>
     (\<exists>n res. register_value_set n cfg (new_instruction 4 Op_ret []) 2 = Some res)"
proof -
  have "\<exists>cfg. create_control_flow_graph 0 join_example = Some (Inr cfg) \<and>
     map from_blocks (blocks cfg) = [[], [], [0, 1]] \<and>
     cfg_instructions cfg (iref (new_instruction 4 Op_ret [])) = Some 2"
    by (simp add: join_example_def blk_eval) (simp add: lnk_eval)
  then obtain cfg where g: "create_control_flow_graph 0 join_example = Some (Inr cfg)"
    and fr: "map from_blocks (blocks cfg) = [[], [], [0, 1]]"
    and m: "cfg_instructions cfg (iref (new_instruction 4 Op_ret [])) = Some 2"
    by (elim exE conjE)
  have len: "length (blocks cfg) = 3"
    using arg_cong [OF fr, of length] by simp
  have nth: "from_blocks (blocks cfg ! b) = [[], [], [0, 1]] ! b" if "b < 3" for b
    using that len nth_map [of b "blocks cfg" from_blocks] fr by simp
  have r: "\<forall>b < length (blocks cfg). \<forall>p \<in> set (from_blocks (blocks cfg ! b)).
             p < length (blocks cfg) \<and> p < b"
  proof (intro allI impI ballI)
    fix b p
    assume b: "b < length (blocks cfg)" and p: "p \<in> set (from_blocks (blocks cfg ! b))"
    from b len have "b = 0 \<or> b = 1 \<or> b = 2"
      by auto
    with p nth [of b] len show "p < length (blocks cfg) \<and> p < b"
      by auto
  qed
  have "\<exists>n res. register_value_set n cfg (new_instruction 4 Op_ret []) 2 = Some res"
    by (rule value_set_terminates [where rank = "\<lambda>b. b", OF r]) (simp add: m len)
  with g fr m show ?thesis
    by auto
qed

lemma fold_res_snoc_Inr:
  "fold_res f (xs @ [x]) s = Some (Inr t) \<longleftrightarrow>
     (\<exists>s'. fold_res f xs s = Some (Inr s') \<and> f x s' = Some (Inr t))"
  by (auto simp: fold_res_append split: option.splits sum.splits)

lemma scan_refines:
  assumes "\<And>i a vs. i \<in> set xs \<Longrightarrow> R i a = Some (Inr vs) \<Longrightarrow> R' i a = Some (Inr vs)"
  shows "fold_res (scan_step R insts r) xs v0 = Some (Inr vals) \<Longrightarrow>
         spec_scan R' (Some (Inr v0)) insts r (rev xs) = Some (Inr vals)"
  using assms
proof (induction xs arbitrary: vals rule: rev_induct)
  case Nil
  then show ?case by simp
next
  case (snoc i xs)
  from snoc.prems(1) obtain v1 where pre: "fold_res (scan_step R insts r) xs v0 = Some (Inr v1)"
    and step: "scan_step R insts r i v1 = Some (Inr vals)"
    by (auto simp: fold_res_snoc_Inr)
  have ih: "spec_scan R' (Some (Inr v0)) insts r (rev xs) = Some (Inr v1)"
    using snoc.IH [OF pre] snoc.prems(2) by simp
  have R: "R i a = Some (Inr vs) \<Longrightarrow> R' i a = Some (Inr vs)" for a vs
    using snoc.prems(2) [of i a vs] by simp
  from step have i: "i < length insts"
    by (auto simp: scan_step_def split: if_splits)
  show ?case
  proof (cases "opcode (insts ! i) \<in> {Op_let, Op_leti, Op_letb, Op_letw, Op_leto}")
    case False
    with step i have "vals = v1"
      by (cases "opcode (insts ! i)") (auto simp: scan_step_def)
    with False i ih show ?thesis by simp
  next
    case True
    show ?thesis
    proof (cases "arg_at (args (insts ! i)) 0")
      case (Inl e)
      with step i True show ?thesis
        by (auto simp: scan_step_def immediate_load_def)
    next
      case a0: (Inr a0)
      show ?thesis
      proof (cases "a0 = r")
        case False
        with step i True a0 have "vals = v1"
          by (auto simp: scan_step_def immediate_load_def)
        with False True i a0 ih show ?thesis by simp
      next
        case eq: True
        show ?thesis
        proof (cases "arg_at (args (insts ! i)) 1")
          case (Inl e)
          with step i True a0 eq show ?thesis
            by (auto simp: scan_step_def immediate_load_def)
        next
          case a1: (Inr a1)
          show ?thesis
          proof (cases "opcode (insts ! i) = Op_let")
            case True
            with step i a0 eq a1 have "R i a1 = Some (Inr vals)"
              by (simp add: scan_step_def)
            then have "R' i a1 = Some (Inr vals)" by (rule R)
            with True i a0 eq a1 show ?thesis by simp
          next
            case False
            with step i True a0 eq a1 have "vals = {|a1|}"
              by (auto simp: scan_step_def immediate_load_def set_value_def)
            with False True i a0 eq a1 show ?thesis by simp
          qed
        qed
      qed
    qed
  qed
qed

lemma union_step_Inr:
  "union_step R p v = Some (Inr t) \<longleftrightarrow> (\<exists>s. R p = Some (Inr s) \<and> t = union_vs v s)"
  by (auto simp: union_step_def split: option.splits sum.splits)

lemma union_refines:
  assumes "\<And>p s. p \<in> set ps \<Longrightarrow> R p = Some (Inr s) \<Longrightarrow> R' p = Some (Inr s)"
  shows "fold_res (union_step R) ps v = Some (Inr vs) \<Longrightarrow>
         fold_res (union_step R') ps v = Some (Inr vs)"
  using assms
proof (induction ps arbitrary: v)
  case Nil
  then show ?case by simp
next
  case (Cons p ps)
  from Cons.prems(1) obtain t where t: "union_step R p v = Some (Inr t)"
    and rest: "fold_res (union_step R) ps t = Some (Inr vs)"
    by (auto split: option.splits sum.splits)
  from t obtain s where s: "R p = Some (Inr s)" "t = union_vs v s"
    by (auto simp: union_step_Inr)
  from Cons.prems(2) [of p s] s have "union_step R' p v = Some (Inr t)"
    by (simp add: union_step_Inr)
  moreover have "fold_res (union_step R') ps t = Some (Inr vs)"
    using Cons.IH [OF rest] Cons.prems(2) by simp
  ultimately show ?case
    by simp
qed

lemma find_value_set_refines:
  "find_value_set n bs b e r = Some (Inr vs) \<Longrightarrow> amended_value_set n bs b e r = Some (Inr vs)"
proof (induction n arbitrary: b e r vs)
  case 0
  then show ?case by simp
next
  case (Suc n)
  let ?insts = "instructions (segment (bs ! b))"
  from Suc.prems obtain vals where
    scan: "fold_res (scan_step (\<lambda>i r. find_value_set n bs b i r) ?insts r)
             [start (bs ! b)..<e] new_ValueSet = Some (Inr vals)"
    and fin: "(if vals = {||}
               then fold_res (union_step (\<lambda>p. find_value_set n bs p (end_idx (bs ! p)) r))
                      (from_blocks (bs ! b)) vals
               else Some (Inr vals)) = Some (Inr vs)"
    by (auto split: option.splits sum.splits)
  have "spec_scan (\<lambda>i r. amended_value_set n bs b i r) (Some (Inr {||})) ?insts r
          (rev [start (bs ! b)..<e]) = Some (Inr vals)"
    using scan_refines [OF _ scan [unfolded new_ValueSet_def]] Suc.IH by blast
  moreover have "fold_res (union_step (\<lambda>p. amended_value_set n bs p (end_idx (bs ! p)) r))
                   (from_blocks (bs ! b)) {||} = Some (Inr vs)" if "vals = {||}"
    using union_refines [of "from_blocks (bs ! b)"
        "\<lambda>p. find_value_set n bs p (end_idx (bs ! p)) r"
        "\<lambda>p. amended_value_set n bs p (end_idx (bs ! p)) r" "{||}" vs]
      fin that Suc.IH by simp
  ultimately show ?case
    using fin by (auto split: if_splits)
qed

lemma block_instructions_nth:
  assumes "start b \<le> i" "i < end_idx b" "end_idx b \<le> length (instructions (segment b))"
  shows "instructions (segment b) ! i \<in> set (block_instructions b)"
proof -
  let ?xs = "instructions (segment b)"
  have "block_instructions b ! (i - start b) = ?xs ! i"
    using assms by (simp add: block_instructions_def)
  moreover have "i - start b < length (block_instructions b)"
    using assms by (simp add: block_instructions_def)
  ultimately show ?thesis
    by (metis nth_mem)
qed

lemma blocks_ok_load:
  assumes "blocks_ok bs" "b < length bs" "start (bs ! b) \<le> i" "i < end_idx (bs ! b)"
  shows "i < length (instructions (segment (bs ! b))) \<and> load_ok (instructions (segment (bs ! b)) ! i)"
proof -
  from assms(1,2) have ok: "end_idx (bs ! b) \<le> length (instructions (segment (bs ! b)))"
    "list_all load_ok (block_instructions (bs ! b))"
    by (auto simp: blocks_ok_def)
  from block_instructions_nth [OF assms(3,4) ok(1)] ok(2) assms(4) ok(1) show ?thesis
    by (auto simp: list_all_iff)
qed

lemma fold_res_no_error:
  "(\<And>x s. x \<in> set xs \<Longrightarrow> f x s \<noteq> Some (Inl err)) \<Longrightarrow> fold_res f xs s \<noteq> Some (Inl err)"
  by (induction xs arbitrary: s) (auto split: option.splits sum.splits)

lemma scan_step_no_error:
  assumes "i < length insts" "load_ok (insts ! i)"
    and "\<And>a. recur i a \<noteq> Some (Inl err)"
  shows "scan_step recur insts r i v \<noteq> Some (Inl err)"
  using assms
  by (cases "opcode (insts ! i)")
     (auto simp: scan_step_def immediate_load_def load_ok_def arg_at_def)

lemma union_step_no_error:
  "recur p \<noteq> Some (Inl err) \<Longrightarrow> union_step recur p v \<noteq> Some (Inl err)"
  by (auto simp: union_step_def split: option.splits sum.splits)

lemma find_value_set_no_error:
  assumes ok: "blocks_ok bs"
  shows "b < length bs \<Longrightarrow> e \<le> end_idx (bs ! b) \<Longrightarrow> find_value_set n bs b e r \<noteq> Some (Inl err)"
proof (induction n arbitrary: b e r)
  case 0
  then show ?case by simp
next
  case (Suc n)
  let ?insts = "instructions (segment (bs ! b))"
  have scan: "fold_res (scan_step (\<lambda>i r. find_value_set n bs b i r) ?insts r)
                [start (bs ! b)..<e] v \<noteq> Some (Inl err)" for v
  proof (rule fold_res_no_error, rule scan_step_no_error)
    fix i s
    assume "i \<in> set [start (bs ! b)..<e]"
    then have i: "start (bs ! b) \<le> i" "i < end_idx (bs ! b)"
      using Suc.prems(2) by auto
    from blocks_ok_load [OF ok Suc.prems(1) i]
    show "i < length ?insts" "load_ok (?insts ! i)"
      by simp_all
    show "find_value_set n bs b i a \<noteq> Some (Inl err)" for a
      using Suc.IH [OF Suc.prems(1), of i a] i by simp
  qed
  have un: "fold_res (union_step (\<lambda>p. find_value_set n bs p (end_idx (bs ! p)) r))
              (from_blocks (bs ! b)) v \<noteq> Some (Inl err)" for v
  proof (rule fold_res_no_error, rule union_step_no_error)
    fix p s
    assume "p \<in> set (from_blocks (bs ! b))"
    with ok Suc.prems(1) have "p < length bs"
      by (auto simp: blocks_ok_def)
    then show "find_value_set n bs p (end_idx (bs ! p)) r \<noteq> Some (Inl err)"
      by (rule Suc.IH) simp
  qed
  show ?case
    using scan [of new_ValueSet] un
    by (auto split: option.splits sum.splits)
qed

lemma fold_res_mono:
  "(\<And>x s y. x \<in> set xs \<Longrightarrow> f x s = Some y \<Longrightarrow> g x s = Some y) \<Longrightarrow>
     fold_res f xs s = Some y \<Longrightarrow> fold_res g xs s = Some y"
proof (induction xs arbitrary: s)
  case Nil
  then show ?case by simp
next
  case (Cons x xs)
  from Cons.prems(2) obtain z where z: "f x s = Some z"
    by (auto split: option.splits)
  with Cons.prems(1) [of x s z] have g: "g x s = Some z"
    by simp
  show ?case
  proof (cases z)
    case (Inl e)
    with z g Cons.prems(2) show ?thesis by auto
  next
    case (Inr s')
    with z Cons.prems(2) have "fold_res f xs s' = Some y" by simp
    then have "fold_res g xs s' = Some y"
      using Cons.IH Cons.prems(1) by simp
    with Inr g show ?thesis by simp
  qed
qed

lemma scan_step_mono:
  "(\<And>a y. R i a = Some y \<Longrightarrow> R' i a = Some y) \<Longrightarrow>
     scan_step R insts r i v = Some y \<Longrightarrow> scan_step R' insts r i v = Some y"
  by (cases "opcode (insts ! i)")
     (auto simp: scan_step_def split: if_splits sum.splits)

lemma union_step_mono:
  "(\<And>y. R p = Some y \<Longrightarrow> R' p = Some y) \<Longrightarrow>
     union_step R p v = Some y \<Longrightarrow> union_step R' p v = Some y"
  by (auto simp: union_step_def split: option.splits sum.splits)

lemma body_mono:
  assumes "\<And>i a y. R i a = Some y \<Longrightarrow> R' i a = Some y"
    and "\<And>p y. U p = Some y \<Longrightarrow> U' p = Some y"
    and "(case fold_res (scan_step R insts r) xs v0 of
            None \<Rightarrow> None
          | Some (Inl e) \<Rightarrow> Some (Inl e)
          | Some (Inr vals) \<Rightarrow>
              if size_vs vals = 0 then fold_res (union_step U) ps vals else Some (Inr vals)) = Some res"
  shows "(case fold_res (scan_step R' insts r) xs v0 of
            None \<Rightarrow> None
          | Some (Inl e) \<Rightarrow> Some (Inl e)
          | Some (Inr vals) \<Rightarrow>
              if size_vs vals = 0 then fold_res (union_step U') ps vals else Some (Inr vals)) = Some res"
proof -
  from assms(3) obtain z where z: "fold_res (scan_step R insts r) xs v0 = Some z"
    by (auto split: option.splits)
  have z': "fold_res (scan_step R' insts r) xs v0 = Some z"
    by (rule fold_res_mono [OF scan_step_mono z]) (rule assms(1))
  show ?thesis
  proof (cases z)
    case (Inl err)
    with z z' assms(3) show ?thesis by auto
  next
    case (Inr vals)
    show ?thesis
    proof (cases "vals = {||}")
      case False
      with Inr z assms(3) have "res = Inr vals" by simp
      with False Inr z' show ?thesis by simp
    next
      case True
      with Inr z assms(3) have u: "fold_res (union_step U) ps vals = Some res"
        by auto
      have "fold_res (union_step U') ps vals = Some res"
        by (rule fold_res_mono [OF union_step_mono u]) (rule assms(2))
      with True Inr z' show ?thesis by auto
    qed
  qed
qed

lemma find_value_set_Suc:
  "find_value_set n bs b e r = Some res \<Longrightarrow> find_value_set (Suc n) bs b e r = Some res"
proof (induction n arbitrary: b e r res)
  case 0
  then show ?case by simp
next
  case (Suc n)
  from Suc.prems have p:
    "(case fold_res (scan_step (\<lambda>i r. find_value_set n bs b i r)
               (instructions (segment (bs ! b))) r) [start (bs ! b)..<e] new_ValueSet of
        None \<Rightarrow> None
      | Some (Inl e) \<Rightarrow> Some (Inl e)
      | Some (Inr vals) \<Rightarrow>
          if size_vs vals = 0
          then fold_res (union_step (\<lambda>p. find_value_set n bs p (end_idx (bs ! p)) r))
                 (from_blocks (bs ! b)) vals
          else Some (Inr vals)) = Some res"
    by (simp only: find_value_set.simps(2))
  show ?case
    by (subst find_value_set.simps(2), rule body_mono [OF _ _ p]) (erule Suc.IH)+
qed

lemma find_value_set_fuel:
  "find_value_set n bs b e r = Some res \<Longrightarrow> n \<le> m \<Longrightarrow> find_value_set m bs b e r = Some res"
  by (induction m) (auto simp: le_Suc_eq find_value_set_Suc simp del: find_value_set.simps)

lemma find_inst_idx_le:
  "i \<le> end_idx b \<Longrightarrow> find_inst_idx b r i \<le> end_idx b"
  by (induction b r i rule: find_inst_idx.induct) (subst find_inst_idx.simps, simp)

lemma no_overridden_copy_nth:
  "no_overridden_copy xs \<Longrightarrow> i < k \<Longrightarrow> k < length xs \<Longrightarrow> opcode (xs ! i) = Op_let \<Longrightarrow>
   opcode (xs ! k) \<in> {Op_let, Op_leti, Op_letb, Op_letw, Op_leto} \<Longrightarrow>
     arg_at (args (xs ! k)) 0 \<noteq> arg_at (args (xs ! i)) 0"
proof (induction xs arbitrary: i k)
  case Nil
  then show ?case by simp
next
  case (Cons x xs)
  show ?case
  proof (cases i)
    case 0
    with Cons.prems obtain k' where k': "k = Suc k'" "k' < length xs"
      by (cases k) auto
    with Cons.prems 0 show ?thesis
      by (auto simp: nth_mem)
  next
    case (Suc i')
    with Cons.prems obtain k' where k': "k = Suc k'" "k' < length xs" "i' < k'"
      by (cases k) auto
    with Cons.prems Suc Cons.IH [of i' k'] show ?thesis
      by simp
  qed
qed

lemma block_no_overridden_copy:
  assumes "no_overridden_copy (block_instructions b)"
    and "start b \<le> i" "i < k" "k < end_idx b" "end_idx b \<le> length (instructions (segment b))"
    and "opcode (instructions (segment b) ! i) = Op_let"
    and "opcode (instructions (segment b) ! k) \<in> {Op_let, Op_leti, Op_letb, Op_letw, Op_leto}"
  shows "arg_at (args (instructions (segment b) ! k)) 0 \<noteq> arg_at (args (instructions (segment b) ! i)) 0"
proof -
  let ?xs = "instructions (segment b)"
  have n: "block_instructions b ! (j - start b) = ?xs ! j" if "start b \<le> j" "j < end_idx b" for j
    using that assms(5) by (simp add: block_instructions_def)
  have l: "k - start b < length (block_instructions b)"
    using assms(2-5) by (simp add: block_instructions_def)
  have "i - start b < k - start b"
    using assms(2,3) by simp
  from no_overridden_copy_nth [OF assms(1) this l] assms n [of i] n [of k]
  show ?thesis by simp
qed

lemma load_ok_args:
  assumes "load_ok inst" and "opcode inst \<in> {Op_let, Op_leti, Op_letb, Op_letw, Op_leto}"
  shows "\<exists>a0 a1. arg_at (args inst) 0 = Inr a0 \<and> arg_at (args inst) 1 = Inr a1"
proof -
  from assms have "2 \<le> length (args inst)"
    unfolding load_ok_def by blast
  then have "0 < length (args inst)" "1 < length (args inst)"
    by linarith+
  then show ?thesis
    by (simp add: arg_at_def)
qed

lemma prefix_returns:
  "\<forall>i \<in> set xs. i < length insts \<and> load_ok (insts ! i) \<and>
      \<not> (opcode (insts ! i) = Op_let \<and> arg_at (args (insts ! i)) 0 = Inr r) \<Longrightarrow>
     \<exists>v1. fold_res (scan_step R insts r) xs v0 = Some (Inr v1)"
proof (induction xs arbitrary: v0)
  case Nil
  then show ?case by simp
next
  case (Cons i xs)
  from Cons.prems have "\<exists>v. scan_step R insts r i v0 = Some (Inr v)"
    by (cases "opcode (insts ! i)")
       (auto simp: scan_step_def immediate_load_def load_ok_def arg_at_def)
  then obtain v where v: "scan_step R insts r i v0 = Some (Inr v)" ..
  from Cons.IH [of v] Cons.prems obtain v1 where "fold_res (scan_step R insts r) xs v = Some (Inr v1)"
    by auto
  with v show ?case by simp
qed

lemma fold_res_single: "fold_res f [x] s = f x s"
  by (auto split: option.splits sum.splits)

lemma scan_agrees:
  assumes ok: "\<forall>i. s \<le> i \<and> i < e \<longrightarrow> i < length insts \<and> load_ok (insts ! i)"
    and nc: "\<forall>i k. s \<le> i \<and> i < k \<and> k < e \<longrightarrow> opcode (insts ! i) = Op_let \<longrightarrow>
               opcode (insts ! k) \<in> {Op_let, Op_leti, Op_letb, Op_letw, Op_leto} \<longrightarrow>
               arg_at (args (insts ! k)) 0 \<noteq> arg_at (args (insts ! i)) 0"
  shows "fold_res (scan_step R insts r) [s..<e] v0 = spec_scan R (Some (Inr v0)) insts r (rev [s..<e])"
  using assms
proof (induction e)
  case 0
  then show ?case by simp
next
  case (Suc e)
  show ?case
  proof (cases "s \<le> e")
    case False
    then show ?thesis by simp
  next
    case True
    let ?pre = "fold_res (scan_step R insts r) [s..<e] v0"
    have ih: "?pre = spec_scan R (Some (Inr v0)) insts r (rev [s..<e])"
      using Suc.IH Suc.prems by simp
    from Suc.prems(1) True have e: "e < length insts" "load_ok (insts ! e)"
      by simp_all
    have lhs: "fold_res (scan_step R insts r) [s..<Suc e] v0 =
                 (case ?pre of None \<Rightarrow> None | Some (Inl err) \<Rightarrow> Some (Inl err)
                  | Some (Inr v1) \<Rightarrow> scan_step R insts r e v1)"
      using True by (simp add: fold_res_append fold_res_single split: option.splits sum.splits)
    have rhs: "rev [s..<Suc e] = e # rev [s..<e]"
      using True by simp
    have skip: ?thesis if p: "passes (insts ! e) r"
      and sk: "spec_scan R (Some (Inr v0)) insts r (e # rev [s..<e]) =
               spec_scan R (Some (Inr v0)) insts r (rev [s..<e])"
    proof -
      from p have st: "scan_step R insts r e v1 = Some (Inr v1)" for v1
        using e(1) by (simp add: scan_step_passes)
      have "fold_res (scan_step R insts r) [s..<Suc e] v0 = ?pre"
        unfolding lhs by (simp add: st split: option.splits sum.splits)
      with sk ih show ?thesis
        unfolding rhs by simp
    qed
    show ?thesis
    proof (cases "opcode (insts ! e) \<in> {Op_let, Op_leti, Op_letb, Op_letw, Op_leto}")
      case False
      show ?thesis
      proof (rule skip)
        from False show "passes (insts ! e) r"
          by (simp add: passes_def)
        from False e(1) show "spec_scan R (Some (Inr v0)) insts r (e # rev [s..<e]) =
               spec_scan R (Some (Inr v0)) insts r (rev [s..<e])"
          by simp
      qed
    next
      case five: True
      from load_ok_args [OF e(2) five] obtain a0 a1 where
        a0: "arg_at (args (insts ! e)) 0 = Inr a0" and a1: "arg_at (args (insts ! e)) 1 = Inr a1"
        by blast
      show ?thesis
      proof (cases "a0 = r")
        case False
        show ?thesis
        proof (rule skip)
          from False a0 show "passes (insts ! e) r"
            by (simp add: passes_def)
          from False five a0 e(1) show "spec_scan R (Some (Inr v0)) insts r (e # rev [s..<e]) =
               spec_scan R (Some (Inr v0)) insts r (rev [s..<e])"
            by simp
        qed
      next
        case True
        have "\<forall>i \<in> set [s..<e]. i < length insts \<and> load_ok (insts ! i) \<and>
                \<not> (opcode (insts ! i) = Op_let \<and> arg_at (args (insts ! i)) 0 = Inr r)"
        proof (intro ballI conjI)
          fix i
          assume "i \<in> set [s..<e]"
          then have i: "s \<le> i" "i < e" by simp_all
          from Suc.prems(1) i show "i < length insts" "load_ok (insts ! i)"
            by simp_all
          from Suc.prems(2) [rule_format, of i e] i five a0 True
          show "\<not> (opcode (insts ! i) = Op_let \<and> arg_at (args (insts ! i)) 0 = Inr r)"
            by auto
        qed
        from prefix_returns [OF this] obtain v1 where v1: "?pre = Some (Inr v1)"
          by blast
        have "scan_step R insts r e v1 =
                (if opcode (insts ! e) = Op_let then R e a1 else Some (Inr {|a1|}))"
          using five a0 a1 True e(1)
          by (cases "opcode (insts ! e)")
             (simp_all add: scan_step_def immediate_load_def set_value_def)
        moreover have "spec_scan R (Some (Inr v0)) insts r (e # rev [s..<e]) =
                (if opcode (insts ! e) = Op_let then R e a1 else Some (Inr {|a1|}))"
          using five a0 a1 True e(1) by simp
        ultimately show ?thesis
          unfolding lhs v1 rhs by simp
      qed
    qed
  qed
qed

lemma spec_scan_cong:
  "(\<And>i a. i \<in> set xs \<Longrightarrow> R i a = R' i a) \<Longrightarrow>
     spec_scan R s0 insts r xs = spec_scan R' s0 insts r xs"
  by (induction xs) (auto split: sum.splits)

lemma union_fold_cong:
  "(\<And>p. p \<in> set ps \<Longrightarrow> U p = U' p) \<Longrightarrow>
     fold_res (union_step U) ps v = fold_res (union_step U') ps v"
  by (induction ps arbitrary: v) (auto simp: union_step_def split: option.splits sum.splits)

lemma find_value_set_agrees:
  assumes ok: "blocks_ok bs"
    and nc: "\<forall>b \<in> set bs. no_overridden_copy (block_instructions b)"
  shows "b < length bs \<Longrightarrow> e \<le> end_idx (bs ! b) \<Longrightarrow>
           find_value_set n bs b e r = amended_value_set n bs b e r"
proof (induction n arbitrary: b e r)
  case 0
  then show ?case by simp
next
  case (Suc n)
  let ?insts = "instructions (segment (bs ! b))"
  let ?s = "start (bs ! b)"
  from ok Suc.prems(1) have len: "end_idx (bs ! b) \<le> length ?insts"
    by (auto simp: blocks_ok_def)
  have "fold_res (scan_step (\<lambda>i r. find_value_set n bs b i r) ?insts r) [?s..<e] {||} =
          spec_scan (\<lambda>i r. find_value_set n bs b i r) (Some (Inr {||})) ?insts r (rev [?s..<e])"
  proof (rule scan_agrees, intro allI impI)
    fix i
    assume "?s \<le> i \<and> i < e"
    with Suc.prems(2) have "?s \<le> i" "i < end_idx (bs ! b)" by simp_all
    from blocks_ok_load [OF ok Suc.prems(1) this]
    show "i < length ?insts \<and> load_ok (?insts ! i)" .
  next
    show "\<forall>i k. ?s \<le> i \<and> i < k \<and> k < e \<longrightarrow> opcode (?insts ! i) = Op_let \<longrightarrow>
               opcode (?insts ! k) \<in> {Op_let, Op_leti, Op_letb, Op_letw, Op_leto} \<longrightarrow>
               arg_at (args (?insts ! k)) 0 \<noteq> arg_at (args (?insts ! i)) 0"
    proof (intro allI impI)
      fix i k
      assume a: "?s \<le> i \<and> i < k \<and> k < e" "opcode (?insts ! i) = Op_let"
        "opcode (?insts ! k) \<in> {Op_let, Op_leti, Op_letb, Op_letw, Op_leto}"
      from nc Suc.prems(1) have "no_overridden_copy (block_instructions (bs ! b))"
        by simp
      from block_no_overridden_copy [OF this _ _ _ len a(2,3)] a(1) Suc.prems(2)
      show "arg_at (args (?insts ! k)) 0 \<noteq> arg_at (args (?insts ! i)) 0"
        by simp
    qed
  qed
  also have "\<dots> = spec_scan (\<lambda>i r. amended_value_set n bs b i r) (Some (Inr {||})) ?insts r
                     (rev [?s..<e])"
  proof (rule spec_scan_cong)
    fix i a
    assume "i \<in> set (rev [?s..<e])"
    with Suc.prems(2) have "i \<le> end_idx (bs ! b)" by simp
    from Suc.IH [OF Suc.prems(1) this]
    show "find_value_set n bs b i a = amended_value_set n bs b i a" .
  qed
  finally have scan:
    "fold_res (scan_step (\<lambda>i r. find_value_set n bs b i r) ?insts r) [?s..<e] {||} =
     spec_scan (\<lambda>i r. amended_value_set n bs b i r) (Some (Inr {||})) ?insts r (rev [?s..<e])" .
  have un: "fold_res (union_step (\<lambda>p. find_value_set n bs p (end_idx (bs ! p)) r))
              (from_blocks (bs ! b)) {||} =
            fold_res (union_step (\<lambda>p. amended_value_set n bs p (end_idx (bs ! p)) r))
              (from_blocks (bs ! b)) {||}"
  proof (rule union_fold_cong)
    fix p
    assume "p \<in> set (from_blocks (bs ! b))"
    with ok Suc.prems(1) have "p < length bs"
      by (auto simp: blocks_ok_def)
    then show "find_value_set n bs p (end_idx (bs ! p)) r = amended_value_set n bs p (end_idx (bs ! p)) r"
      by (rule Suc.IH) simp
  qed
  have "find_value_set (Suc n) bs b e r =
          (case fold_res (scan_step (\<lambda>i r. find_value_set n bs b i r) ?insts r) [?s..<e] {||} of
             None \<Rightarrow> None
           | Some (Inl err) \<Rightarrow> Some (Inl err)
           | Some (Inr vals) \<Rightarrow>
               if vals = {||}
               then fold_res (union_step (\<lambda>p. find_value_set n bs p (end_idx (bs ! p)) r))
                      (from_blocks (bs ! b)) {||}
               else Some (Inr vals))"
    by (auto simp: new_ValueSet_def split: option.splits sum.splits)
  also have "\<dots> = amended_value_set (Suc n) bs b e r"
    unfolding scan un by simp
  finally show ?case .
qed

lemma find_value_set_returns:
  assumes ok: "blocks_ok bs"
    and rank: "\<forall>b < length bs. \<forall>p \<in> set (from_blocks (bs ! b)). rank p < (rank b :: nat)"
    and b: "b < length bs" and e: "e \<le> end_idx (bs ! b)"
  shows "\<exists>vs N. \<forall>n \<ge> N. find_value_set n bs b e r = Some (Inr vs)"
proof -
  have "\<forall>b < length bs. \<forall>p \<in> set (from_blocks (bs ! b)). p < length bs \<and> rank p < rank b"
    using ok rank by (auto simp: blocks_ok_def)
  from find_value_set_total [OF this b] obtain N where
    N: "\<forall>n \<ge> N. find_value_set n bs b e r \<noteq> None"
    by blast
  then obtain res where res: "find_value_set N bs b e r = Some res"
    by auto
  with find_value_set_no_error [OF ok b e, of N r] obtain vs where "res = Inr vs"
    by (cases res) auto
  with res have "\<forall>n \<ge> N. find_value_set n bs b e r = Some (Inr vs)"
    by (auto intro: find_value_set_fuel)
  then show ?thesis by blast
qed

lemma overridden_copy_diverges:
  assumes f: "from_blocks (bs ! 0) = [0]" "end_idx (bs ! 0) = 3" "start (bs ! 0) = 0"
    "instructions (segment (bs ! 0)) =
       [new_instruction 0 Op_let [1, 2], new_instruction 1 Op_leti [1, 5],
        new_instruction 2 Op_jmp [0]]"
  shows "find_value_set n bs 0 2 1 = None"
proof (cases n)
  case 0
  then show ?thesis by simp
next
  case (Suc k)
  have src: "find_value_set k bs 0 0 2 = None"
    by (rule find_value_set_self_loop [OF f(1)])
       (simp_all add: f passes_def new_instruction_def arg_at_def less_Suc_eq numeral_3_eq_3)
  let ?insts = "instructions (segment (bs ! 0))"
  have "scan_step (\<lambda>i r. find_value_set k bs 0 i r) ?insts 1 0 v = None" for v
    using scan_step_copy [of 0 ?insts 1 2 "\<lambda>i r. find_value_set k bs 0 i r" v] src
    by (simp add: f new_instruction_def arg_at_def)
  then have "fold_res (scan_step (\<lambda>i r. find_value_set k bs 0 i r) ?insts 1) [0..<2] new_ValueSet = None"
    by (simp add: upt_rec numeral_2_eq_2)
  then show ?thesis
    unfolding Suc by (simp add: f)
qed

lemmas rec_simps = find_value_set.simps spec_value_set.simps amended_value_set.simps

text \<open>
  C4, as the code has it. The definition compared with is the backward scan in which the
  union over the predecessors is taken whenever the scan of the block yields the empty
  set: the nearest immediate load to the register before the query point gives a
  singleton, the nearest copy gives the value set of the source register at the copy,
  other instructions change nothing, and an empty result, at the block start or from a
  copy, gives the union over the predecessors.

  \<^item> On every graph, a value set that \<open>register_value_set\<close> returns is the set of the
    definition.
  \<^item> On every well-formed graph whose predecessor edges have no cycle the query returns
    a value set: from some depth on, the code and the definition give the same set.
  \<^item> On every well-formed graph, cyclic or not, in which no copy is followed in its block
    by another copy or load into the same register, the code and the definition have
    the same outcome at every depth, so that neither returns where the other does not.
  \<^item> Queried right after \<open>leti r0, 5\<close> the result is \<open>{5}\<close>, and at the entry of a block
    whose two predecessors load 1 and 2 into register 2 it is \<open>{1, 2}\<close>.
  \<^item> The forward scan of the code resolves every copy into the register, also one that a
    later load overrides: in the loop \<open>0: let r1, r2; leti r1, 5; jmp 0\<close> the definition
    gives \<open>{5}\<close> for register 1 at the jump at every depth but 0, and the code does not
    return at any depth.
\<close>

theorem value_set_matches_amended_reference:
  "(register_value_set n cfg instruction register = Some (Inr vs) \<longrightarrow>
      amended_register_value_set n cfg instruction register = Some (Inr vs)) \<and>
   (blocks_ok (blocks cfg) \<longrightarrow>
    (\<forall>b. cfg_instructions cfg (iref instruction) = Some b \<longrightarrow> b < length (blocks cfg)) \<longrightarrow>
    (\<forall>b < length (blocks cfg). \<forall>p \<in> set (from_blocks (blocks cfg ! b)). rank p < (rank b :: nat)) \<longrightarrow>
      (\<exists>vs' N. \<forall>m \<ge> N.
         register_value_set m cfg instruction register = Some (Inr vs') \<and>
         amended_register_value_set m cfg instruction register = Some (Inr vs'))) \<and>
   (blocks_ok (blocks cfg) \<longrightarrow>
    (\<forall>b. cfg_instructions cfg (iref instruction) = Some b \<longrightarrow> b < length (blocks cfg)) \<longrightarrow>
    (\<forall>b \<in> set (blocks cfg). no_overridden_copy (block_instructions b)) \<longrightarrow>
      (\<forall>m. register_value_set m cfg instruction register =
           amended_register_value_set m cfg instruction register)) \<and>
   (\<exists>g. create_control_flow_graph 0 load_example = Some (Inr g) \<and>
      register_value_set 1 g (new_instruction 1 Op_ret []) 0 = Some (Inr {|5|})) \<and>
   (\<exists>g. create_control_flow_graph 0 join_example = Some (Inr g) \<and>
      register_value_set 2 g (new_instruction 4 Op_ret []) 2 = Some (Inr {|1, 2|})) \<and>
   (\<exists>g. create_control_flow_graph 0 overridden_copy_example = Some (Inr g) \<and>
      (\<forall>m. amended_register_value_set (Suc m) g (new_instruction 2 Op_jmp [0]) 1 = Some (Inr {|5|})) \<and>
      (\<forall>m. register_value_set m g (new_instruction 2 Op_jmp [0]) 1 = None))"
proof (intro conjI impI)
  assume "register_value_set n cfg instruction register = Some (Inr vs)"
  then show "amended_register_value_set n cfg instruction register = Some (Inr vs)"
    by (auto simp: register_value_set_def amended_register_value_set_def new_ValueSet_def
        find_value_set_refines split: option.splits)
next
  assume ok: "blocks_ok (blocks cfg)"
    and m: "\<forall>b. cfg_instructions cfg (iref instruction) = Some b \<longrightarrow> b < length (blocks cfg)"
    and rank: "\<forall>b < length (blocks cfg). \<forall>p \<in> set (from_blocks (blocks cfg ! b)). rank p < rank b"
  show "\<exists>vs' N. \<forall>m \<ge> N.
         register_value_set m cfg instruction register = Some (Inr vs') \<and>
         amended_register_value_set m cfg instruction register = Some (Inr vs')"
  proof (cases "cfg_instructions cfg (iref instruction)")
    case None
    then show ?thesis
      by (simp add: register_value_set_def amended_register_value_set_def new_ValueSet_def)
  next
    case (Some b)
    with m have b: "b < length (blocks cfg)" by simp
    let ?e = "find_inst_idx (blocks cfg ! b) (iref instruction) (start (blocks cfg ! b))"
    from ok b have "start (blocks cfg ! b) \<le> end_idx (blocks cfg ! b)"
      by (auto simp: blocks_ok_def)
    then have e: "?e \<le> end_idx (blocks cfg ! b)"
      by (rule find_inst_idx_le)
    from find_value_set_returns [OF ok rank b e, of register] obtain vs' N where
      r: "\<forall>m \<ge> N. find_value_set m (blocks cfg) b ?e register = Some (Inr vs')"
      by blast
    then have "\<forall>m \<ge> N. amended_value_set m (blocks cfg) b ?e register = Some (Inr vs')"
      by (simp add: find_value_set_refines)
    with r Some show ?thesis
      by (auto simp: register_value_set_def amended_register_value_set_def)
  qed
next
  assume ok: "blocks_ok (blocks cfg)"
    and m: "\<forall>b. cfg_instructions cfg (iref instruction) = Some b \<longrightarrow> b < length (blocks cfg)"
    and nc: "\<forall>b \<in> set (blocks cfg). no_overridden_copy (block_instructions b)"
  show "\<forall>m. register_value_set m cfg instruction register =
           amended_register_value_set m cfg instruction register"
  proof (cases "cfg_instructions cfg (iref instruction)")
    case None
    then show ?thesis
      by (simp add: register_value_set_def amended_register_value_set_def new_ValueSet_def)
  next
    case (Some b)
    with m have b: "b < length (blocks cfg)" by simp
    let ?e = "find_inst_idx (blocks cfg ! b) (iref instruction) (start (blocks cfg ! b))"
    from ok b have "start (blocks cfg ! b) \<le> end_idx (blocks cfg ! b)"
      by (auto simp: blocks_ok_def)
    then have e: "?e \<le> end_idx (blocks cfg ! b)"
      by (rule find_inst_idx_le)
    from find_value_set_agrees [OF ok nc b e] Some show ?thesis
      by (simp add: register_value_set_def amended_register_value_set_def)
  qed
next
  show "\<exists>g. create_control_flow_graph 0 load_example = Some (Inr g) \<and>
      register_value_set 1 g (new_instruction 1 Op_ret []) 0 = Some (Inr {|5|})"
    apply (simp add: load_example_def blk_eval del: rec_simps)
    apply (simp add: lnk_eval del: rec_simps)
    apply (simp add: vs_eval)
    done
next
  show "\<exists>g. create_control_flow_graph 0 join_example = Some (Inr g) \<and>
      register_value_set 2 g (new_instruction 4 Op_ret []) 2 = Some (Inr {|1, 2|})"
    apply (simp add: join_example_def blk_eval del: rec_simps)
    apply (simp add: lnk_eval del: rec_simps)
    apply (simp add: vs_eval)
    apply auto
    done
next
  have "\<exists>g. create_control_flow_graph 0 overridden_copy_example = Some (Inr g) \<and>
          cfg_instructions g (iref (new_instruction 2 Op_jmp [0])) = Some 0 \<and>
          find_inst_idx (blocks g ! 0) (iref (new_instruction 2 Op_jmp [0])) (start (blocks g ! 0)) = 2 \<and>
          from_blocks (blocks g ! 0) = [0] \<and> end_idx (blocks g ! 0) = 3 \<and>
          start (blocks g ! 0) = 0 \<and>
          instructions (segment (blocks g ! 0)) =
            [new_instruction 0 Op_let [1, 2], new_instruction 1 Op_leti [1, 5],
             new_instruction 2 Op_jmp [0]] \<and>
          (\<forall>m. amended_register_value_set (Suc m) g (new_instruction 2 Op_jmp [0]) 1 = Some (Inr {|5|}))"
    apply (simp add: overridden_copy_example_def blk_eval del: rec_simps)
    apply (simp add: lnk_eval del: rec_simps)
    apply (simp add: amended_register_value_set_def find_inst_idx.simps arg_at_def upt_rec numeral_eq_Suc)
    done
  then obtain g where g: "create_control_flow_graph 0 overridden_copy_example = Some (Inr g)"
    and m: "cfg_instructions g (iref (new_instruction 2 Op_jmp [0])) = Some 0"
    and i: "find_inst_idx (blocks g ! 0) (iref (new_instruction 2 Op_jmp [0])) (start (blocks g ! 0)) = 2"
    and f: "from_blocks (blocks g ! 0) = [0]" "end_idx (blocks g ! 0) = 3" "start (blocks g ! 0) = 0"
      "instructions (segment (blocks g ! 0)) =
            [new_instruction 0 Op_let [1, 2], new_instruction 1 Op_leti [1, 5],
             new_instruction 2 Op_jmp [0]]"
    and a: "(\<forall>m. amended_register_value_set (Suc m) g (new_instruction 2 Op_jmp [0]) 1 = Some (Inr {|5|}))"
    by (elim exE conjE)
  have "register_value_set k g (new_instruction 2 Op_jmp [0]) 1 = None" for k
    using overridden_copy_diverges [OF f, of k] m i by (simp add: register_value_set_def)
  with g a show "\<exists>g. create_control_flow_graph 0 overridden_copy_example = Some (Inr g) \<and>
      (\<forall>m. amended_register_value_set (Suc m) g (new_instruction 2 Op_jmp [0]) 1 = Some (Inr {|5|})) \<and>
      (\<forall>m. register_value_set m g (new_instruction 2 Op_jmp [0]) 1 = None)"
    by blast
qed

lemmas ok_eval =
  blocks_ok_def block_instructions_def load_ok_def arg_at_def new_instruction_def

theorem value_set_matches_amended_reference_witness:
  "(\<exists>g. create_control_flow_graph 0 copy_example = Some (Inr g) \<and>
      blocks_ok (blocks g) \<and> map from_blocks (blocks g) = [[], [0]] \<and>
      cfg_instructions g (iref (new_instruction 4 Op_ret [])) = Some 1 \<and>
      register_value_set 3 g (new_instruction 4 Op_ret []) 1 = Some (Inr {|7|}) \<and>
      amended_register_value_set 3 g (new_instruction 4 Op_ret []) 1 = Some (Inr {|7|}) \<and>
      (\<exists>N. \<forall>m \<ge> N.
         register_value_set m g (new_instruction 4 Op_ret []) 1 = Some (Inr {|7|}) \<and>
         amended_register_value_set m g (new_instruction 4 Op_ret []) 1 = Some (Inr {|7|}))) \<and>
   (\<exists>g. create_control_flow_graph 0 copy_loop_example = Some (Inr g) \<and>
      blocks_ok (blocks g) \<and> map from_blocks (blocks g) = [[0]] \<and>
      list_all (\<lambda>b. no_overridden_copy (block_instructions b)) (blocks g) \<and>
      cfg_instructions g (iref (new_instruction 2 Op_jmp [0])) = Some 0 \<and>
      register_value_set 2 g (new_instruction 2 Op_jmp [0]) 1 = Some (Inr {|4|}) \<and>
      amended_register_value_set 2 g (new_instruction 2 Op_jmp [0]) 1 = Some (Inr {|4|}) \<and>
      (\<forall>m. register_value_set m g (new_instruction 2 Op_jmp [0]) 1 =
           amended_register_value_set m g (new_instruction 2 Op_jmp [0]) 1))"
proof (rule conjI)
  let ?ret = "new_instruction 4 Op_ret []"
  have "\<exists>g. create_control_flow_graph 0 copy_example = Some (Inr g) \<and>
      blocks_ok (blocks g) \<and> map from_blocks (blocks g) = [[], [0]] \<and>
      cfg_instructions g (iref ?ret) = Some 1 \<and>
      register_value_set 3 g ?ret 1 = Some (Inr {|7|})"
    apply (simp add: copy_example_def blk_eval del: rec_simps)
    apply (simp add: lnk_eval del: rec_simps)
    apply (simp add: vs_eval ok_eval)
    done
  then obtain g where g: "create_control_flow_graph 0 copy_example = Some (Inr g)"
    and ok: "blocks_ok (blocks g)" and fr: "map from_blocks (blocks g) = [[], [0]]"
    and m: "cfg_instructions g (iref ?ret) = Some 1"
    and r: "register_value_set 3 g ?ret 1 = Some (Inr {|7|})"
    by (elim exE conjE)
  have len: "length (blocks g) = 2"
    using arg_cong [OF fr, of length] by simp
  have nth: "from_blocks (blocks g ! b) = [[], [0]] ! b" if "b < 2" for b
    using that len nth_map [of b "blocks g" from_blocks] fr by simp
  have rank: "\<forall>b < length (blocks g). \<forall>p \<in> set (from_blocks (blocks g ! b)). p < b"
  proof (intro allI impI ballI)
    fix b p
    assume b: "b < length (blocks g)" and p: "p \<in> set (from_blocks (blocks g ! b))"
    from b len have "b = 0 \<or> b = 1"
      by auto
    with p nth [of b] show "p < b"
      by auto
  qed
  have mb: "\<forall>b. cfg_instructions g (iref ?ret) = Some b \<longrightarrow> b < length (blocks g)"
    using m len by simp
  note t = value_set_matches_amended_reference [of 3 g ?ret 1 "{|7|}" "\<lambda>b. b"]
  have a: "amended_register_value_set 3 g ?ret 1 = Some (Inr {|7|})"
    by (rule mp [OF t [THEN conjunct1] r])
  have "\<exists>vs' N. \<forall>k \<ge> N. register_value_set k g ?ret 1 = Some (Inr vs') \<and>
                  amended_register_value_set k g ?ret 1 = Some (Inr vs')"
    by (rule mp [OF mp [OF mp [OF t [THEN conjunct2, THEN conjunct1] ok] mb] rank])
  then obtain vs' N where
    N: "\<forall>k \<ge> N. register_value_set k g ?ret 1 = Some (Inr vs') \<and>
                  amended_register_value_set k g ?ret 1 = Some (Inr vs')"
    by (elim exE)
  have "register_value_set (max N 3) g ?ret 1 = Some (Inr {|7|})"
    using r m find_value_set_fuel [of 3 "blocks g" 1 _ 1 "Inr {|7|}" "max N 3"]
    by (simp add: register_value_set_def)
  moreover from N have "register_value_set (max N 3) g ?ret 1 = Some (Inr vs')"
    by simp
  ultimately have "vs' = {|7|}"
    by simp
  with N have n: "\<exists>N. \<forall>k \<ge> N. register_value_set k g ?ret 1 = Some (Inr {|7|}) \<and>
                  amended_register_value_set k g ?ret 1 = Some (Inr {|7|})"
    by (intro exI [of _ N]) simp
  show "\<exists>g. create_control_flow_graph 0 copy_example = Some (Inr g) \<and>
      blocks_ok (blocks g) \<and> map from_blocks (blocks g) = [[], [0]] \<and>
      cfg_instructions g (iref ?ret) = Some 1 \<and>
      register_value_set 3 g ?ret 1 = Some (Inr {|7|}) \<and>
      amended_register_value_set 3 g ?ret 1 = Some (Inr {|7|}) \<and>
      (\<exists>N. \<forall>m \<ge> N.
         register_value_set m g ?ret 1 = Some (Inr {|7|}) \<and>
         amended_register_value_set m g ?ret 1 = Some (Inr {|7|}))"
    by (intro exI [of _ g] conjI g ok fr m r a n)
next
  let ?jmp = "new_instruction 2 Op_jmp [0]"
  have "\<exists>g. create_control_flow_graph 0 copy_loop_example = Some (Inr g) \<and>
      blocks_ok (blocks g) \<and> map from_blocks (blocks g) = [[0]] \<and>
      list_all (\<lambda>b. no_overridden_copy (block_instructions b)) (blocks g) \<and>
      cfg_instructions g (iref ?jmp) = Some 0 \<and>
      register_value_set 2 g ?jmp 1 = Some (Inr {|4|})"
    apply (simp add: copy_loop_example_def blk_eval del: rec_simps)
    apply (simp add: lnk_eval del: rec_simps)
    apply (simp add: vs_eval ok_eval)
    done
  then obtain g where g: "create_control_flow_graph 0 copy_loop_example = Some (Inr g)"
    and ok: "blocks_ok (blocks g)" and fr: "map from_blocks (blocks g) = [[0]]"
    and nc: "list_all (\<lambda>b. no_overridden_copy (block_instructions b)) (blocks g)"
    and m: "cfg_instructions g (iref ?jmp) = Some 0"
    and r: "register_value_set 2 g ?jmp 1 = Some (Inr {|4|})"
    by (elim exE conjE)
  have len: "length (blocks g) = 1"
    using arg_cong [OF fr, of length] by simp
  have mb: "\<forall>b. cfg_instructions g (iref ?jmp) = Some b \<longrightarrow> b < length (blocks g)"
    using m len by simp
  from nc have nc': "\<forall>b \<in> set (blocks g). no_overridden_copy (block_instructions b)"
    by (simp add: list_all_iff)
  note t = value_set_matches_amended_reference [of 2 g ?jmp 1 "{|4|}" "\<lambda>b. b"]
  have eq: "\<forall>k. register_value_set k g ?jmp 1 = amended_register_value_set k g ?jmp 1"
    by (rule mp [OF mp [OF mp [OF t [THEN conjunct2, THEN conjunct2, THEN conjunct1] ok] mb] nc'])
  with r have a: "amended_register_value_set 2 g ?jmp 1 = Some (Inr {|4|})"
    by simp
  show "\<exists>g. create_control_flow_graph 0 copy_loop_example = Some (Inr g) \<and>
      blocks_ok (blocks g) \<and> map from_blocks (blocks g) = [[0]] \<and>
      list_all (\<lambda>b. no_overridden_copy (block_instructions b)) (blocks g) \<and>
      cfg_instructions g (iref ?jmp) = Some 0 \<and>
      register_value_set 2 g ?jmp 1 = Some (Inr {|4|}) \<and>
      amended_register_value_set 2 g ?jmp 1 = Some (Inr {|4|}) \<and>
      (\<forall>m. register_value_set m g ?jmp 1 = amended_register_value_set m g ?jmp 1)"
    by (intro exI [of _ g] conjI g ok fr nc m r a eq)
qed

theorem value_set_differs_from_reference:
  "\<exists>g. create_control_flow_graph 0 copy_example = Some (Inr g) \<and>
     register_value_set 3 g (new_instruction 4 Op_ret []) 1 = Some (Inr {|7|}) \<and>
     spec_register_value_set 3 g (new_instruction 4 Op_ret []) 1 = Some (Inr {||})"
  apply (simp add: copy_example_def blk_eval del: rec_simps)
  apply (simp add: lnk_eval del: rec_simps)
  apply (simp add: vs_eval spec_register_value_set_def)
  done


lemma label_argument_Some:
  "get_step_innable_instruction_label_argument instr = Inr (Some l) \<Longrightarrow>
     opcode instr \<in> {Op_call, Op_va_call, Op_switch_call} \<and>
     arg_at (args instr) (if opcode instr = Op_switch_call then 1 else 0) = Inr l"
  by (cases "opcode instr")
     (auto simp: get_step_innable_instruction_label_argument_def arg_at_def split: if_splits)




end
